theory Spec2Isabelle
  imports Main
begin

section \<open>The save queue of the extension's background service worker\<close>

text \<open>
  The development embeds \<^verbatim>\<open>extension/background/service-worker.ts\<close> and the
  declarations of \<^verbatim>\<open>extension/shared/types.ts\<close>. The worker is an asynchronous
  program on one execution context. Its state is the persisted queue, the in-memory set
  \<^verbatim>\<open>processingIds\<close>, the suspended calls of \<^verbatim>\<open>processQueueItem\<close> (each holds the
  \<^verbatim>\<open>item\<close> it was called with while its request is in flight), the pending retry
  timers and the suspended replay loops of \<^verbatim>\<open>processPendingOnStartup\<close>. What the
  worker does to the outside (requests sent, messages broadcast, waits of the replay loop)
  is recorded in a trace.

  Operations of the store are taken as atomic, so the one suspension point of
  \<^verbatim>\<open>processQueueItem\<close> kept here is the network request: the function is split into
  the part before \<^verbatim>\<open>await fetchWithRetry\<close> and the part after it.
\<close>

subsection \<open>Configuration (\<^verbatim>\<open>CONFIG\<close> of shared/types.ts)\<close>

definition MAX_RETRIES :: nat where
  "MAX_RETRIES = 3"

definition INITIAL_RETRY_DELAY_MS :: nat where
  "INITIAL_RETRY_DELAY_MS = 1000"

definition MAX_RETRY_DELAY_MS :: nat where
  "MAX_RETRY_DELAY_MS = 30000"

definition MAX_QUEUE_SIZE :: nat where
  "MAX_QUEUE_SIZE = 100"

definition MIN_SELECTION_LENGTH :: nat where
  "MIN_SELECTION_LENGTH = 10"

definition MAX_SELECTION_LENGTH :: nat where
  "MAX_SELECTION_LENGTH = 10000"

text \<open>The per-attempt timeout of \<^verbatim>\<open>fetchWithRetry\<close> and the wait of the replay loop.\<close>

definition FETCH_TIMEOUT_MS :: nat where
  "FETCH_TIMEOUT_MS = 30000"

definition STAGGER_DELAY_MS :: nat where
  "STAGGER_DELAY_MS = 500"

subsection \<open>Data (shared/types.ts)\<close>

text \<open>
  A queue id is an opaque string in the source, compared by equality only. The generator
  of ids belongs to the storage module; ids are the values of a counter here.
\<close>

type_synonym queue_id = nat

datatype item_status = Pending | Saving | Failed

record SnippetPayload =
  text_p :: string
  sourceUrl :: string
  sourceTitle :: string
  sourceDomain :: string
  selectionContext :: "string option"

record QueueItem =
  id_q :: queue_id
  createdAt :: nat
  retryCount :: nat
  lastError :: "string option"
  status :: item_status
  payload :: SnippetPayload

datatype save_status = SPending | SSaved | SFailed

record RecentSave =
  id_r :: queue_id
  text_r :: string
  sourceDomain_r :: string
  status_r :: save_status

record StatePayload =
  pendingCount :: nat
  recentSaves :: "RecentSave list"

record SaveResult =
  success :: bool
  snippetId :: "string option"
  error :: "string option"
  originalText :: string
  queueId :: "queue_id option"

datatype message = SAVE_RESULT SaveResult | STATE_UPDATE StatePayload

text \<open>
  A value caught by \<^verbatim>\<open>catch (error)\<close>: an \<^verbatim>\<open>Error\<close> object with its \<^verbatim>\<open>name\<close> and
  \<^verbatim>\<open>message\<close>, or anything else.
\<close>

datatype thrown = ErrorObj string string | NonError

text \<open>
  The parsed body of a response, with the two fields the worker reads: \<^verbatim>\<open>error\<close>
  (\<^verbatim>\<open>ApiError\<close>) and \<^verbatim>\<open>id\<close> (\<^verbatim>\<open>SnippetResponse\<close>). \<^verbatim>\<open>response.json()\<close> rejects
  on a body that is not JSON.
\<close>

record JsonBody =
  error_j :: "string option"
  id_j :: "string option"

record Response =
  httpStatus :: nat
  json :: "thrown + JsonBody"

text \<open>\<^verbatim>\<open>fetch\<close> resolves with a response or rejects (network failure, abort).\<close>

datatype fetch_outcome = Resolved Response | Rejected thrown

datatype effect = Waited nat | Post QueueItem | Publish message

record ReplayLoop =
  remaining :: "QueueItem list"
  awaiting :: "queue_id option"

record worker =
  queue :: "QueueItem list"
  nextId :: nat
  processingIds :: "queue_id set"
  inflight :: "QueueItem list"
  timers :: "(nat \<times> queue_id) list"
  replays :: "ReplayLoop list"
  trace :: "effect list"

subsection \<open>The store (shared/storage.ts)\<close>

text \<open>
  Modelled from the spec: the storage module (\<^verbatim>\<open>getQueue\<close>, \<^verbatim>\<open>enqueue\<close>, \<^verbatim>\<open>dequeue\<close>,
  \<^verbatim>\<open>updateItemStatus\<close>, \<^verbatim>\<open>getPendingItems\<close>, \<^verbatim>\<open>isDuplicate\<close>) is imported by the
  worker and is not among the sources. Section 4.2 of the specification gives its
  contract: \<^verbatim>\<open>listAll\<close> returns the entries in insertion order.
\<close>

definition getQueue :: "worker \<Rightarrow> QueueItem list" where
  "getQueue s = queue s"

datatype store_error = CapacityExceeded

text \<open>
  Modelled from the spec: \<^verbatim>\<open>enqueue\<close> of the missing storage module. It creates and
  persists a new entry with status pending and retryCount 0 under a new unique id, and
  fails with CapacityExceeded if the store already holds the configured maximum number
  of entries.
\<close>

definition enqueue :: "SnippetPayload \<Rightarrow> nat \<Rightarrow> worker \<Rightarrow> store_error + (QueueItem \<times> worker)" where
  "enqueue p now s =
     (if MAX_QUEUE_SIZE \<le> length (queue s) then Inl CapacityExceeded
      else
        let item = \<lparr>id_q = nextId s, createdAt = now, retryCount = 0, lastError = None,
                    status = Pending, payload = p\<rparr>
        in Inr (item, s\<lparr>queue := queue s @ [item], nextId := Suc (nextId s)\<rparr>))"

text \<open>
  Modelled from the spec: \<^verbatim>\<open>dequeue\<close> of the missing storage module (\<^verbatim>\<open>dequeueRemove\<close>
  in the specification). It permanently removes an entry and is a no-op if it is absent.
\<close>

definition dequeue :: "queue_id \<Rightarrow> worker \<Rightarrow> worker" where
  "dequeue i s = s\<lparr>queue := filter (\<lambda>q. id_q q \<noteq> i) (queue s)\<rparr>"

text \<open>
  Modelled from the spec: \<^verbatim>\<open>updateItemStatus\<close> of the missing storage module
  (\<^verbatim>\<open>updateStatus\<close> in the specification). It mutates the named entry in place and is
  a no-op if the id no longer exists. The worker never writes \<^verbatim>\<open>retryCount\<close> itself,
  so the increment of section 4.3 (a retryable failure returns the entry to pending with
  \<^verbatim>\<open>retryCount += 1\<close>, a final failure leaves the count unchanged) is placed here: the
  count grows when an entry is returned to pending with a failure reason.
\<close>

definition update_entry :: "item_status \<Rightarrow> string option \<Rightarrow> QueueItem \<Rightarrow> QueueItem" where
  "update_entry st e q =
     q\<lparr>status := st,
       lastError := (case e of None \<Rightarrow> lastError q | Some m \<Rightarrow> Some m),
       retryCount := (if st = Pending \<and> e \<noteq> None then Suc (retryCount q) else retryCount q)\<rparr>"

definition updateItemStatus :: "queue_id \<Rightarrow> item_status \<Rightarrow> string option \<Rightarrow> worker \<Rightarrow> worker" where
  "updateItemStatus i st e s =
     s\<lparr>queue := map (\<lambda>q. if id_q q = i then update_entry st e q else q) (queue s)\<rparr>"

text \<open>
  Modelled from the spec: \<^verbatim>\<open>getPendingItems\<close> of the missing storage module
  (\<^verbatim>\<open>listPending\<close> in the specification): the subsequence of the entries whose status is
  pending or failed.
\<close>

definition getPendingItems :: "worker \<Rightarrow> QueueItem list" where
  "getPendingItems s = filter (\<lambda>q. status q = Pending \<or> status q = Failed) (queue s)"

subsection \<open>Strings\<close>

text \<open>\<^verbatim>\<open>String.prototype.includes\<close>: the second string occurs in the first.\<close>

fun includes_str :: "string \<Rightarrow> string \<Rightarrow> bool" where
  "includes_str [] sub = (sub = [])"
| "includes_str (c # cs) sub = (take (length sub) (c # cs) = sub \<or> includes_str cs sub)"

text \<open>The decimal digits of a number, as the template literal prints \<^verbatim>\<open>response.status\<close>.\<close>

definition digit :: "nat \<Rightarrow> char" where
  "digit d = ''0123456789'' ! d"

fun show_nat :: "nat \<Rightarrow> string" where
  "show_nat n = (if n < 10 then [digit n] else show_nat (n div 10) @ [digit (n mod 10)])"

declare show_nat.simps [simp del]

subsection \<open>The worker (background/service-worker.ts)\<close>

text \<open>\<^verbatim>\<open>response.ok\<close> of the Fetch API: the status is in the range 200 to 299.\<close>

definition ok :: "Response \<Rightarrow> bool" where
  "ok r = (200 \<le> httpStatus r \<and> httpStatus r \<le> 299)"

definition broadcastMessage :: "message \<Rightarrow> worker \<Rightarrow> worker" where
  "broadcastMessage m s = s\<lparr>trace := trace s @ [Publish m]\<rparr>"

definition summarize :: "QueueItem \<Rightarrow> RecentSave" where
  "summarize item =
     \<lparr>id_r = id_q item,
      text_r = take 100 (text_p (payload item)),
      sourceDomain_r = sourceDomain (payload item),
      status_r = (case status item of Saving \<Rightarrow> SPending | Pending \<Rightarrow> SPending | Failed \<Rightarrow> SFailed)\<rparr>"

text \<open>\<^verbatim>\<open>queue.slice(-10)\<close>: the last ten elements, all of them when there are fewer.\<close>

definition slice_last :: "nat \<Rightarrow> 'a list \<Rightarrow> 'a list" where
  "slice_last n xs = drop (length xs - n) xs"

definition handleSyncState :: "worker \<Rightarrow> StatePayload" where
  "handleSyncState s =
     \<lparr>pendingCount = length (filter (\<lambda>q. status q = Pending \<or> status q = Saving) (getQueue s)),
      recentSaves = map summarize (slice_last 10 (getQueue s))\<rparr>"

definition isRetryableError :: "thrown \<Rightarrow> bool" where
  "isRetryableError e =
     (case e of
        ErrorObj name msg \<Rightarrow>
          if name = ''AbortError'' \<or> includes_str msg ''network'' then True
          else if includes_str msg ''HTTP 5'' then True
          else False
      | NonError \<Rightarrow> False)"

text \<open>
  The first part of \<^verbatim>\<open>processQueueItem\<close>, up to the request: the guard on
  \<^verbatim>\<open>processingIds\<close>, the status \<^verbatim>\<open>saving\<close>, the request sent. The call then waits
  for the request, holding \<^verbatim>\<open>item\<close>.
\<close>

definition processQueueItem_begin :: "QueueItem \<Rightarrow> worker \<Rightarrow> worker" where
  "processQueueItem_begin item s =
     (if id_q item \<in> processingIds s then s
      else
        let s1 = s\<lparr>processingIds := insert (id_q item) (processingIds s)\<rparr>;
            s2 = updateItemStatus (id_q item) Saving None s1
        in s2\<lparr>inflight := inflight s2 @ [item], trace := trace s2 @ [Post item]\<rparr>)"

text \<open>
  The rest of the \<^verbatim>\<open>try\<close> block once the request has settled: the value thrown, or the
  parsed snippet of a response that is \<^verbatim>\<open>ok\<close>.
\<close>

definition response_result :: "fetch_outcome \<Rightarrow> thrown + JsonBody" where
  "response_result out =
     (case out of
        Rejected e \<Rightarrow> Inl e
      | Resolved r \<Rightarrow>
          if \<not> ok r then
            (let err = (case json r of Inl _ \<Rightarrow> Some ''Unknown error'' | Inr b \<Rightarrow> error_j b)
             in Inl (ErrorObj ''Error''
                  (case err of
                     None \<Rightarrow> ''HTTP '' @ show_nat (httpStatus r)
                   | Some m \<Rightarrow> if m = [] then ''HTTP '' @ show_nat (httpStatus r) else m)))
          else json r)"

definition retry_delay :: "nat \<Rightarrow> nat" where
  "retry_delay n = min (INITIAL_RETRY_DELAY_MS * 2 ^ n) MAX_RETRY_DELAY_MS"

definition on_success :: "QueueItem \<Rightarrow> JsonBody \<Rightarrow> worker \<Rightarrow> worker" where
  "on_success item snippet s =
     (let s1 = dequeue (id_q item) s;
          s2 = broadcastMessage (SAVE_RESULT
                 \<lparr>success = True, snippetId = id_j snippet, error = None,
                  originalText = text_p (payload item), queueId = Some (id_q item)\<rparr>) s1
      in broadcastMessage (STATE_UPDATE (handleSyncState s2)) s2)"

text \<open>
  The \<^verbatim>\<open>catch\<close> block: \<^verbatim>\<open>error instanceof Error ? error.message : "Unknown error"\<close>,
  then the retry with backoff or the final failure.
\<close>

definition errorMessage :: "thrown \<Rightarrow> string" where
  "errorMessage e = (case e of ErrorObj name msg \<Rightarrow> msg | NonError \<Rightarrow> ''Unknown error'')"

definition on_failure :: "QueueItem \<Rightarrow> thrown \<Rightarrow> worker \<Rightarrow> worker" where
  "on_failure item e s =
     (if retryCount item < MAX_RETRIES \<and> isRetryableError e then
        (let s1 = updateItemStatus (id_q item) Pending (Some (errorMessage e)) s
         in s1\<lparr>timers := timers s1 @ [(retry_delay (retryCount item), id_q item)]\<rparr>)
      else
        (let s1 = updateItemStatus (id_q item) Failed (Some (errorMessage e)) s;
             s2 = broadcastMessage (SAVE_RESULT
                    \<lparr>success = False, snippetId = None, error = Some (errorMessage e),
                     originalText = text_p (payload item), queueId = Some (id_q item)\<rparr>) s1
         in broadcastMessage (STATE_UPDATE (handleSyncState s2)) s2))"

text \<open>
  The second part of \<^verbatim>\<open>processQueueItem\<close>, from the settled request to the end of the
  \<^verbatim>\<open>finally\<close> block.
\<close>

definition processQueueItem_end :: "QueueItem \<Rightarrow> fetch_outcome \<Rightarrow> worker \<Rightarrow> worker" where
  "processQueueItem_end item out s =
     (let s1 = (case response_result out of
                  Inr snippet \<Rightarrow> on_success item snippet s
                | Inl e \<Rightarrow> on_failure item e s)
      in s1\<lparr>processingIds := processingIds s1 - {id_q item},
            inflight := remove1 item (inflight s1)\<rparr>)"

definition retryQueueItem :: "queue_id \<Rightarrow> worker \<Rightarrow> worker" where
  "retryQueueItem i s =
     (case find (\<lambda>q. id_q q = i) (getQueue s) of
        None \<Rightarrow> s
      | Some item \<Rightarrow>
          if status item = Pending \<or> status item = Failed then processQueueItem_begin item s
          else s)"

datatype save_response = StatusPending queue_id | StatusError string

text \<open>
  \<^verbatim>\<open>handleSaveSnippet\<close>. The verdict of \<^verbatim>\<open>isDuplicate\<close> (missing storage module, whose
  table is its own) and the clock read by \<^verbatim>\<open>enqueue\<close> come with the request. The
  promise rejects (\<open>Inl\<close>) when \<^verbatim>\<open>enqueue\<close> throws.
\<close>

definition handleSaveSnippet ::
  "SnippetPayload \<Rightarrow> bool \<Rightarrow> nat \<Rightarrow> worker \<Rightarrow> (store_error + save_response) \<times> worker" where
  "handleSaveSnippet p isDuplicate now s =
     (if text_p p = [] \<or> length (text_p p) < MIN_SELECTION_LENGTH then
        (Inr (StatusError ''Selection too short (minimum 10 characters)''), s)
      else if MAX_SELECTION_LENGTH < length (text_p p) then
        (Inr (StatusError ''Selection too long (maximum 10,000 characters)''), s)
      else if isDuplicate then
        (Inr (StatusError ''This snippet was already saved recently''), s)
      else
        (case enqueue p now s of
           Inl e \<Rightarrow> (Inl e, s)
         | Inr (queueItem, s1) \<Rightarrow>
             (Inr (StatusPending (id_q queueItem)), processQueueItem_begin queueItem s1)))"

subsection \<open>Events\<close>

text \<open>
  One step of the worker: a message from a content script or the popup, a retry timer
  firing, a request settling, \<^verbatim>\<open>processPendingOnStartup\<close> being called (on the start of
  the worker and on the \<^verbatim>\<open>online\<close> event) and the wait of one of its loops ending. A
  replay loop waits, calls \<^verbatim>\<open>processQueueItem\<close> on the next item of its snapshot and
  awaits that call: when the guard returns at once the loop goes on, otherwise it is
  resumed when the request settles.
\<close>

datatype event =
    SAVE_SNIPPET SnippetPayload bool nat
  | SYNC_STATE
  | RETRY_FAILED queue_id
  | CLEAR_FAILED queue_id
  | TIMER_FIRED nat queue_id
  | FETCH_SETTLED queue_id fetch_outcome
  | PROCESS_PENDING
  | STAGGER_ELAPSED nat

definition resume :: "queue_id \<Rightarrow> ReplayLoop \<Rightarrow> ReplayLoop" where
  "resume i l = (if awaiting l = Some i then l\<lparr>awaiting := None\<rparr> else l)"

definition replay_next :: "nat \<Rightarrow> worker \<Rightarrow> worker" where
  "replay_next k s =
     (if k < length (replays s) then
        (let l = replays s ! k in
         case (awaiting l, remaining l) of
           (None, item # rest) \<Rightarrow>
             (let s1 = s\<lparr>trace := trace s @ [Waited STAGGER_DELAY_MS]\<rparr>;
                  started = (id_q item \<notin> processingIds s1);
                  s2 = processQueueItem_begin item s1
              in s2\<lparr>replays := (replays s2)
                     [k := \<lparr>remaining = rest,
                            awaiting = (if started then Some (id_q item) else None)\<rparr>]\<rparr>)
         | _ \<Rightarrow> s)
      else s)"

fun step :: "event \<Rightarrow> worker \<Rightarrow> worker" where
  "step (SAVE_SNIPPET p isDuplicate now) s = snd (handleSaveSnippet p isDuplicate now s)"
| "step SYNC_STATE s = s"
| "step (RETRY_FAILED i) s = retryQueueItem i s"
| "step (CLEAR_FAILED i) s = dequeue i s"
| "step (TIMER_FIRED d i) s =
     (if (d, i) \<in> set (timers s) then retryQueueItem i (s\<lparr>timers := remove1 (d, i) (timers s)\<rparr>)
      else s)"
| "step (FETCH_SETTLED i out) s =
     (case find (\<lambda>q. id_q q = i) (inflight s) of
        None \<Rightarrow> s
      | Some item \<Rightarrow>
          (let s1 = processQueueItem_end item out s
           in s1\<lparr>replays := map (resume i) (replays s1)\<rparr>))"
| "step PROCESS_PENDING s =
     s\<lparr>replays := replays s @ [\<lparr>remaining = getPendingItems s, awaiting = None\<rparr>]\<rparr>"
| "step (STAGGER_ELAPSED k) s = replay_next k s"

fun run :: "event list \<Rightarrow> worker \<Rightarrow> worker" where
  "run [] s = s"
| "run (e # es) s = run es (step e s)"

text \<open>A worker that has just started on a persisted queue.\<close>

definition start_worker :: "QueueItem list \<Rightarrow> nat \<Rightarrow> worker" where
  "start_worker q n =
     \<lparr>queue = q, nextId = n, processingIds = {}, inflight = [], timers = [],
      replays = [], trace = []\<rparr>"

subsection \<open>Invariants and observations\<close>

text \<open>The ids of a list of entries, in order.\<close>

definition ids :: "QueueItem list \<Rightarrow> queue_id list" where
  "ids xs = map id_q xs"

text \<open>An id that occurs in the trace was issued before: it is below the counter.\<close>

definition trace_id_ok :: "nat \<Rightarrow> effect \<Rightarrow> bool" where
  "trace_id_ok n e =
     (case e of
        Publish (SAVE_RESULT r) \<Rightarrow> (case queueId r of Some i \<Rightarrow> i < n | None \<Rightarrow> False)
      | Post item \<Rightarrow> id_q item < n
      | _ \<Rightarrow> True)"

text \<open>
  The guard: the suspended calls of \<^verbatim>\<open>processQueueItem\<close> have pairwise different ids, and
  \<^verbatim>\<open>processingIds\<close> is the set of their ids.
\<close>

definition guard_inv :: "worker \<Rightarrow> bool" where
  "guard_inv s \<longleftrightarrow> distinct (ids (inflight s)) \<and> set (ids (inflight s)) = processingIds s"

text \<open>Ids are unique in the store, and every id the worker holds was issued by the store.\<close>

definition fresh_inv :: "worker \<Rightarrow> bool" where
  "fresh_inv s \<longleftrightarrow>
     distinct (ids (queue s)) \<and>
     (\<forall>i\<in>set (ids (queue s)). i < nextId s) \<and>
     (\<forall>i\<in>set (ids (inflight s)). i < nextId s) \<and>
     (\<forall>l\<in>set (replays s). \<forall>i\<in>set (ids (remaining l)). i < nextId s) \<and>
     (\<forall>e\<in>set (trace s). trace_id_ok (nextId s) e)"

definition wf :: "worker \<Rightarrow> bool" where
  "wf s \<longleftrightarrow> guard_inv s \<and> fresh_inv s"

subsection \<open>Sample values\<close>

definition sample_payload :: SnippetPayload where
  "sample_payload =
     \<lparr>text_p = ''The quick brown fox jumps'', sourceUrl = ''https://example.com/a'',
      sourceTitle = ''A'', sourceDomain = ''example.com'', selectionContext = None\<rparr>"

definition short_payload :: SnippetPayload where
  "short_payload = sample_payload\<lparr>text_p := ''too short''\<rparr>"

definition sample_item :: "queue_id \<Rightarrow> item_status \<Rightarrow> QueueItem" where
  "sample_item i st =
     \<lparr>id_q = i, createdAt = 0, retryCount = 0, lastError = None, status = st,
      payload = sample_payload\<rparr>"

subsection \<open>Observations on the trace and on events\<close>

text \<open>A broadcast of success that carries the queue id \<open>i\<close>.\<close>

definition is_success_for :: "queue_id \<Rightarrow> effect \<Rightarrow> bool" where
  "is_success_for i e =
     (case e of Publish (SAVE_RESULT r) \<Rightarrow> success r \<and> queueId r = Some i | _ \<Rightarrow> False)"

text \<open>The event settles the request of the attempt for the id \<open>i\<close>.\<close>

definition settles :: "queue_id \<Rightarrow> event \<Rightarrow> bool" where
  "settles i e = (case e of FETCH_SETTLED j out \<Rightarrow> j = i | _ \<Rightarrow> False)"

text \<open>A response of the remote store to a successful write, with the id of the snippet.\<close>

definition created_response :: Response where
  "created_response = \<lparr>httpStatus = 201, json = Inr \<lparr>error_j = None, id_j = Some ''s1''\<rparr>\<rparr>"

text \<open>A response of the remote store to a failed write: status 500 and an \<^verbatim>\<open>ApiError\<close> body.\<close>

definition server_error_response :: Response where
  "server_error_response =
     \<lparr>httpStatus = 500, json = Inr \<lparr>error_j = Some ''Internal Server Error'', id_j = None\<rparr>\<rparr>"

text \<open>A worker whose store holds one failed entry, with a retry timer for it still pending.\<close>

definition failed_with_timer :: worker where
  "failed_with_timer =
     \<lparr>queue = [sample_item 0 Failed], nextId = 1, processingIds = {}, inflight = [],
      timers = [(1000, 0)], replays = [], trace = []\<rparr>"

text \<open>A request sent for the entry with the id \<open>i\<close>, and the number of them so far.\<close>

definition is_post_for :: "queue_id \<Rightarrow> effect \<Rightarrow> bool" where
  "is_post_for i e = (case e of Post item \<Rightarrow> id_q item = i | _ \<Rightarrow> False)"

definition attempts :: "queue_id \<Rightarrow> worker \<Rightarrow> nat" where
  "attempts i s = length (filter (is_post_for i) (trace s))"

text \<open>
  An attempt for the id \<open>i\<close> is under way, on an item and a store entry that both count
  \<open>k\<close> retries; and the entry waits in the store as pending with \<open>k\<close> retries, no
  attempt under way.
\<close>

definition attempting :: "queue_id \<Rightarrow> nat \<Rightarrow> worker \<Rightarrow> bool" where
  "attempting i k s \<longleftrightarrow>
     guard_inv s \<and> distinct (ids (queue s)) \<and>
     (\<exists>item\<in>set (inflight s). id_q item = i \<and> retryCount item = k) \<and>
     (\<exists>q\<in>set (queue s). id_q q = i \<and> retryCount q = k \<and> status q = Saving)"

definition waiting :: "queue_id \<Rightarrow> nat \<Rightarrow> worker \<Rightarrow> bool" where
  "waiting i k s \<longleftrightarrow>
     guard_inv s \<and> distinct (ids (queue s)) \<and> i \<notin> processingIds s \<and>
     (\<exists>q\<in>set (queue s). id_q q = i \<and> retryCount q = k \<and> status q = Pending)"

text \<open>
  \<open>n\<close> rounds of a request that settles with the same outcome and the retry timer that
  fires after it, for an attempt that starts with \<open>k\<close> retries.
\<close>

fun retry_rounds :: "queue_id \<Rightarrow> fetch_outcome \<Rightarrow> nat \<Rightarrow> nat \<Rightarrow> event list" where
  "retry_rounds i out k 0 = []"
| "retry_rounds i out k (Suc n) =
     FETCH_SETTLED i out # TIMER_FIRED (retry_delay k) i # retry_rounds i out (Suc k) n"

text \<open>A response with status 500 whose body has no \<^verbatim>\<open>error\<close> field.\<close>

definition bare_server_error :: Response where
  "bare_server_error = \<lparr>httpStatus = 500, json = Inr \<lparr>error_j = None, id_j = None\<rparr>\<rparr>"

text \<open>
  The events of one replay loop that runs alone: for each item of its snapshot, the wait
  ends and the request of the attempt settles with the next outcome.
\<close>

fun replay_events :: "QueueItem list \<Rightarrow> fetch_outcome list \<Rightarrow> event list" where
  "replay_events (item # items) (out # outs) =
     STAGGER_ELAPSED 0 # FETCH_SETTLED (id_q item) out # replay_events items outs"
| "replay_events _ _ = []"

text \<open>A store left by an earlier session: a failed, a saving and a pending entry.\<close>

definition leftover_queue :: "QueueItem list" where
  "leftover_queue = [sample_item 0 Failed, sample_item 1 Saving, sample_item 2 Pending]"

text \<open>The trace without the broadcasts: the waits of the replay loop and the requests sent.\<close>

definition is_request :: "effect \<Rightarrow> bool" where
  "is_request e = (case e of Publish m \<Rightarrow> False | _ \<Rightarrow> True)"

definition requests :: "effect list \<Rightarrow> effect list" where
  "requests tr = filter is_request tr"

definition staggered :: "QueueItem list \<Rightarrow> effect list" where
  "staggered items = concat (map (\<lambda>item. [Waited STAGGER_DELAY_MS, Post item]) items)"

text \<open>
  A submit whose write keeps returning 500 without an error text, with a call of
  \<^verbatim>\<open>processPendingOnStartup\<close> after the first failure whose wait ends after the third.
\<close>

definition stale_replay_events :: "event list" where
  "stale_replay_events =
     [SAVE_SNIPPET sample_payload False 0,
      FETCH_SETTLED 0 (Resolved bare_server_error),
      PROCESS_PENDING,
      TIMER_FIRED 1000 0, FETCH_SETTLED 0 (Resolved bare_server_error),
      TIMER_FIRED 2000 0, FETCH_SETTLED 0 (Resolved bare_server_error),
      STAGGER_ELAPSED 0, FETCH_SETTLED 0 (Resolved bare_server_error),
      TIMER_FIRED 4000 0, FETCH_SETTLED 0 (Resolved bare_server_error),
      TIMER_FIRED 2000 0, FETCH_SETTLED 0 (Resolved bare_server_error)]"

section \<open>Basic facts\<close>

text \<open>The definitions that evaluate a run of the worker on concrete events.\<close>

lemmas worker_defs =
  start_worker_def sample_item_def sample_payload_def created_response_def
  server_error_response_def bare_server_error_def handleSaveSnippet_def enqueue_def
  MIN_SELECTION_LENGTH_def MAX_SELECTION_LENGTH_def MAX_QUEUE_SIZE_def MAX_RETRIES_def
  INITIAL_RETRY_DELAY_MS_def MAX_RETRY_DELAY_MS_def STAGGER_DELAY_MS_def
  processQueueItem_begin_def updateItemStatus_def update_entry_def Let_def
  processQueueItem_end_def response_result_def ok_def on_success_def on_failure_def
  errorMessage_def isRetryableError_def dequeue_def broadcastMessage_def handleSyncState_def
  getQueue_def slice_last_def summarize_def retryQueueItem_def replay_next_def resume_def
  getPendingItems_def retry_delay_def

lemma ids_simps [simp]:
  "ids [] = []"
  "ids (x # xs) = id_q x # ids xs"
  "ids (xs @ ys) = ids xs @ ids ys"
  by (simp_all add: ids_def)

lemma ids_mem: "q \<in> set xs \<Longrightarrow> id_q q \<in> set (ids xs)"
  by (simp add: ids_def)

lemma ids_filter_neq [simp]: "set (ids (filter (\<lambda>q. id_q q \<noteq> i) xs)) = set (ids xs) - {i}"
  by (auto simp: ids_def)

lemma distinct_ids_filter: "distinct (ids xs) \<Longrightarrow> distinct (ids (filter P xs))"
  by (simp add: ids_def distinct_map_filter)

lemma ids_filter_subset: "set (ids (filter P xs)) \<subseteq> set (ids xs)"
  by (auto simp: ids_def)

lemma ids_remove1:
  assumes "distinct (ids xs)" "x \<in> set xs"
  shows "set (ids (remove1 x xs)) = set (ids xs) - {id_q x}"
proof -
  have d: "distinct xs" and inj: "inj_on id_q (set xs)"
    using assms(1) by (simp_all add: ids_def distinct_map)
  have "id_q ` set (remove1 x xs) = id_q ` (set xs - {x})"
    using d by simp
  also have "\<dots> = id_q ` set xs - id_q ` {x}"
    using inj assms(2) by (intro inj_on_image_set_diff[of id_q "set xs"]) auto
  finally show ?thesis by (simp add: ids_def)
qed

lemma distinct_ids_remove1: "distinct (ids xs) \<Longrightarrow> distinct (ids (remove1 x xs))"
  unfolding ids_def by (simp add: distinct_map inj_on_def) 

lemma ids_remove1_subset: "set (ids (remove1 x xs)) \<subseteq> set (ids xs)"
  by (induction xs) auto

lemma id_q_update_entry [simp]: "id_q (update_entry st e q) = id_q q"
  by (simp add: update_entry_def)

lemma updateItemStatus_fields [simp]:
  "nextId (updateItemStatus i st e s) = nextId s"
  "processingIds (updateItemStatus i st e s) = processingIds s"
  "inflight (updateItemStatus i st e s) = inflight s"
  "timers (updateItemStatus i st e s) = timers s"
  "replays (updateItemStatus i st e s) = replays s"
  "trace (updateItemStatus i st e s) = trace s"
  by (simp_all add: updateItemStatus_def)

lemma updateItemStatus_ids [simp]: "ids (queue (updateItemStatus i st e s)) = ids (queue s)"
  by (simp add: updateItemStatus_def ids_def)

lemma dequeue_fields [simp]:
  "nextId (dequeue i s) = nextId s"
  "processingIds (dequeue i s) = processingIds s"
  "inflight (dequeue i s) = inflight s"
  "timers (dequeue i s) = timers s"
  "replays (dequeue i s) = replays s"
  "trace (dequeue i s) = trace s"
  "queue (dequeue i s) = filter (\<lambda>q. id_q q \<noteq> i) (queue s)"
  by (simp_all add: dequeue_def)

lemma broadcastMessage_fields [simp]:
  "nextId (broadcastMessage m s) = nextId s"
  "processingIds (broadcastMessage m s) = processingIds s"
  "inflight (broadcastMessage m s) = inflight s"
  "timers (broadcastMessage m s) = timers s"
  "replays (broadcastMessage m s) = replays s"
  "queue (broadcastMessage m s) = queue s"
  "trace (broadcastMessage m s) = trace s @ [Publish m]"
  by (simp_all add: broadcastMessage_def)

lemma begin_fields [simp]:
  "nextId (processQueueItem_begin item s) = nextId s"
  "timers (processQueueItem_begin item s) = timers s"
  "replays (processQueueItem_begin item s) = replays s"
  "ids (queue (processQueueItem_begin item s)) = ids (queue s)"
  by (simp_all add: processQueueItem_begin_def Let_def)

lemma begin_skip: "id_q item \<in> processingIds s \<Longrightarrow> processQueueItem_begin item s = s"
  by (simp add: processQueueItem_begin_def)

lemma begin_go:
  assumes "id_q item \<notin> processingIds s"
  shows "processingIds (processQueueItem_begin item s) = insert (id_q item) (processingIds s)"
    and "inflight (processQueueItem_begin item s) = inflight s @ [item]"
    and "trace (processQueueItem_begin item s) = trace s @ [Post item]"
    and "queue (processQueueItem_begin item s) = queue (updateItemStatus (id_q item) Saving None s)"
  using assms by (simp_all add: processQueueItem_begin_def Let_def updateItemStatus_def)

lemma guard_inv_begin: "guard_inv s \<Longrightarrow> guard_inv (processQueueItem_begin item s)"
  by (cases "id_q item \<in> processingIds s") (auto simp: begin_skip begin_go guard_inv_def)

lemma fresh_inv_begin:
  "fresh_inv s \<Longrightarrow> id_q item < nextId s \<Longrightarrow> fresh_inv (processQueueItem_begin item s)"
  by (cases "id_q item \<in> processingIds s")
     (simp_all add: begin_skip begin_go fresh_inv_def trace_id_ok_def)

lemma on_success_fields [simp]:
  "nextId (on_success item b s) = nextId s"
  "processingIds (on_success item b s) = processingIds s"
  "inflight (on_success item b s) = inflight s"
  "timers (on_success item b s) = timers s"
  "replays (on_success item b s) = replays s"
  "queue (on_success item b s) = filter (\<lambda>q. id_q q \<noteq> id_q item) (queue s)"
  by (simp_all add: on_success_def Let_def)

lemma on_failure_fields [simp]:
  "nextId (on_failure item e s) = nextId s"
  "processingIds (on_failure item e s) = processingIds s"
  "inflight (on_failure item e s) = inflight s"
  "replays (on_failure item e s) = replays s"
  "ids (queue (on_failure item e s)) = ids (queue s)"
  by (simp_all add: on_failure_def Let_def)

lemma trace_on_success:
  "trace (on_success item b s) = trace s @
     [Publish (SAVE_RESULT \<lparr>success = True, snippetId = id_j b, error = None,
                 originalText = text_p (payload item), queueId = Some (id_q item)\<rparr>),
      Publish (STATE_UPDATE (handleSyncState (dequeue (id_q item) s)))]"
  by (simp add: on_success_def Let_def handleSyncState_def getQueue_def)

lemma trace_on_failure_ok:
  "\<forall>e\<in>set (trace s). trace_id_ok n e \<Longrightarrow> id_q item < n \<Longrightarrow>
   \<forall>e\<in>set (trace (on_failure item e s)). trace_id_ok n e"
  by (simp add: on_failure_def Let_def trace_id_ok_def)

lemma trace_on_success_ok:
  "\<forall>e\<in>set (trace s). trace_id_ok n e \<Longrightarrow> id_q item < n \<Longrightarrow>
   \<forall>e\<in>set (trace (on_success item b s)). trace_id_ok n e"
  by (simp add: trace_on_success trace_id_ok_def)

lemma end_queue_cases:
  "queue (processQueueItem_end item out s) = filter (\<lambda>q. id_q q \<noteq> id_q item) (queue s) \<or>
   ids (queue (processQueueItem_end item out s)) = ids (queue s)"
  by (simp add: processQueueItem_end_def Let_def split: sum.splits)

lemma end_trace_cases:
  "(\<exists>b. trace (processQueueItem_end item out s) = trace (on_success item b s)) \<or>
   (\<exists>e. trace (processQueueItem_end item out s) = trace (on_failure item e s))"
proof (cases "response_result out")
  case (Inl e)
  then have "trace (processQueueItem_end item out s) = trace (on_failure item e s)"
    by (simp add: processQueueItem_end_def)
  then show ?thesis by blast
next
  case (Inr b)
  then have "trace (processQueueItem_end item out s) = trace (on_success item b s)"
    by (simp add: processQueueItem_end_def)
  then show ?thesis by blast
qed

lemma end_fields [simp]:
  "nextId (processQueueItem_end item out s) = nextId s"
  "replays (processQueueItem_end item out s) = replays s"
  "processingIds (processQueueItem_end item out s) = processingIds s - {id_q item}"
  "inflight (processQueueItem_end item out s) = remove1 item (inflight s)"
  by (simp_all add: processQueueItem_end_def Let_def split: sum.splits)

lemma guard_inv_end:
  "guard_inv s \<Longrightarrow> item \<in> set (inflight s) \<Longrightarrow> guard_inv (processQueueItem_end item out s)"
  by (simp add: guard_inv_def distinct_ids_remove1 ids_remove1)

lemma fresh_inv_end:
  assumes "fresh_inv s" "id_q item < nextId s"
  shows "fresh_inv (processQueueItem_end item out s)"
proof -
  have q: "distinct (ids (queue (processQueueItem_end item out s)))"
    "\<forall>i\<in>set (ids (queue (processQueueItem_end item out s))). i < nextId s"
    using assms(1) end_queue_cases[of item out s] unfolding fresh_inv_def
    by (auto simp: distinct_ids_filter)
  have f: "\<forall>i\<in>set (ids (remove1 item (inflight s))). i < nextId s"
    using assms(1) ids_remove1_subset[of item "inflight s"] unfolding fresh_inv_def by blast
  have t0: "\<forall>e\<in>set (trace s). trace_id_ok (nextId s) e"
    using assms(1) unfolding fresh_inv_def by simp
  have t: "\<forall>e\<in>set (trace (processQueueItem_end item out s)). trace_id_ok (nextId s) e"
    using end_trace_cases[of item out s]
  proof (elim disjE exE)
    fix b assume "trace (processQueueItem_end item out s) = trace (on_success item b s)"
    then show ?thesis using trace_on_success_ok[OF t0 assms(2)] by simp
  next
    fix e assume "trace (processQueueItem_end item out s) = trace (on_failure item e s)"
    then show ?thesis using trace_on_failure_ok[OF t0 assms(2)] by simp
  qed
  show ?thesis
    using assms(1) q f t unfolding fresh_inv_def by simp
qed


lemma find_id: "find (\<lambda>q. id_q q = i) xs = Some item \<Longrightarrow> item \<in> set xs \<and> id_q item = i"
  by (induction xs) (simp_all split: if_splits)

lemma find_None_id: "find (\<lambda>q. id_q q = i) xs = None \<longleftrightarrow> i \<notin> set (ids xs)"
  by (induction xs) simp_all

lemma retry_cases:
  "retryQueueItem i s = s \<or>
   (\<exists>item. find (\<lambda>q. id_q q = i) (queue s) = Some item \<and>
      status item \<noteq> Saving \<and>
      retryQueueItem i s = processQueueItem_begin item s)"
proof (cases "find (\<lambda>q. id_q q = i) (queue s)")
  case None
  then show ?thesis by (simp add: retryQueueItem_def getQueue_def)
next
  case (Some item)
  then show ?thesis by (cases "status item") (simp_all add: retryQueueItem_def getQueue_def)
qed

lemma guard_inv_retry: "guard_inv s \<Longrightarrow> guard_inv (retryQueueItem i s)"
  using retry_cases[of i s] guard_inv_begin[of s] by (elim disjE exE conjE) simp_all

lemma fresh_inv_retry:
  assumes "fresh_inv s" shows "fresh_inv (retryQueueItem i s)"
  using retry_cases[of i s]
proof (elim disjE exE conjE)
  assume "retryQueueItem i s = s"
  then show ?thesis using assms by simp
next
  fix item
  assume f: "find (\<lambda>q. id_q q = i) (queue s) = Some item"
    and r: "retryQueueItem i s = processQueueItem_begin item s"
  have "item \<in> set (queue s)" using find_id[OF f] by simp
  then have "id_q item \<in> set (ids (queue s))" by (rule ids_mem)
  then have "id_q item < nextId s" using assms unfolding fresh_inv_def by simp
  then show ?thesis using fresh_inv_begin[OF assms] r by simp
qed

lemma guard_inv_dequeue: "guard_inv s \<Longrightarrow> guard_inv (dequeue i s)"
  by (simp add: guard_inv_def)

lemma fresh_inv_dequeue: "fresh_inv s \<Longrightarrow> fresh_inv (dequeue i s)"
  by (simp add: fresh_inv_def distinct_ids_filter)

lemma trace_id_ok_mono: "trace_id_ok n e \<Longrightarrow> n \<le> m \<Longrightarrow> trace_id_ok m e"
  by (auto simp: trace_id_ok_def split: effect.splits message.splits option.splits)

lemma enqueue_Inr:
  assumes "enqueue p now s = Inr (item, s1)"
  shows "id_q item = nextId s" "retryCount item = 0" "status item = Pending" "payload item = p"
    "queue s1 = queue s @ [item]" "nextId s1 = Suc (nextId s)"
    "processingIds s1 = processingIds s" "inflight s1 = inflight s" "timers s1 = timers s"
    "replays s1 = replays s" "trace s1 = trace s" "length (queue s) < MAX_QUEUE_SIZE"
proof -
  have c: "\<not> MAX_QUEUE_SIZE \<le> length (queue s)"
    using assms by (auto simp: enqueue_def)
  then have "item = \<lparr>id_q = nextId s, createdAt = now, retryCount = 0, lastError = None,
                    status = Pending, payload = p\<rparr>"
    and "s1 = s\<lparr>queue := queue s @ [item], nextId := Suc (nextId s)\<rparr>"
    using assms by (auto simp: enqueue_def Let_def)
  then show "id_q item = nextId s" "retryCount item = 0" "status item = Pending" "payload item = p"
    "queue s1 = queue s @ [item]" "nextId s1 = Suc (nextId s)"
    "processingIds s1 = processingIds s" "inflight s1 = inflight s" "timers s1 = timers s"
    "replays s1 = replays s" "trace s1 = trace s"
    by simp_all
  show "length (queue s) < MAX_QUEUE_SIZE" using c by simp
qed

lemma guard_inv_enqueue: "guard_inv s \<Longrightarrow> enqueue p now s = Inr (item, s1) \<Longrightarrow> guard_inv s1"
  by (simp add: guard_inv_def enqueue_Inr)

lemma fresh_inv_enqueue:
  assumes "fresh_inv s" "enqueue p now s = Inr (item, s1)"
  shows "fresh_inv s1"
proof -
  note e = enqueue_Inr[OF assms(2)]
  have t: "\<forall>e\<in>set (trace s). trace_id_ok (Suc (nextId s)) e"
    using assms(1) trace_id_ok_mono[of "nextId s" _ "Suc (nextId s)"] unfolding fresh_inv_def by simp
  have q: "distinct (ids (queue s @ [item]))" "\<forall>i\<in>set (ids (queue s @ [item])). i < Suc (nextId s)"
    using assms(1) e(1) unfolding fresh_inv_def by (auto simp: less_Suc_eq)
  have f: "\<forall>i\<in>set (ids (inflight s)). i < Suc (nextId s)"
    "\<forall>l\<in>set (replays s). \<forall>i\<in>set (ids (remaining l)). i < Suc (nextId s)"
    using assms(1) unfolding fresh_inv_def by (simp_all add: less_Suc_eq)
  show ?thesis
    unfolding fresh_inv_def using t q f by (simp add: e)
qed

lemma handleSaveSnippet_cases:
  "snd (handleSaveSnippet p d now s) = s \<or>
   (\<exists>item s1. enqueue p now s = Inr (item, s1) \<and>
      handleSaveSnippet p d now s = (Inr (StatusPending (id_q item)), processQueueItem_begin item s1))"
  by (simp add: handleSaveSnippet_def split: sum.splits prod.splits)

lemma guard_inv_save:
  assumes "guard_inv s" shows "guard_inv (snd (handleSaveSnippet p d now s))"
  using handleSaveSnippet_cases[of p d now s]
proof (elim disjE exE conjE)
  assume "snd (handleSaveSnippet p d now s) = s"
  then show ?thesis using assms by simp
next
  fix item s1
  assume e: "enqueue p now s = Inr (item, s1)"
    and h: "handleSaveSnippet p d now s = (Inr (StatusPending (id_q item)), processQueueItem_begin item s1)"
  show ?thesis using guard_inv_begin[OF guard_inv_enqueue[OF assms e]] h by simp
qed

lemma fresh_inv_save:
  assumes "fresh_inv s" shows "fresh_inv (snd (handleSaveSnippet p d now s))"
  using handleSaveSnippet_cases[of p d now s]
proof (elim disjE exE conjE)
  assume "snd (handleSaveSnippet p d now s) = s"
  then show ?thesis using assms by simp
next
  fix item s1
  assume e: "enqueue p now s = Inr (item, s1)"
    and h: "handleSaveSnippet p d now s = (Inr (StatusPending (id_q item)), processQueueItem_begin item s1)"
  have "id_q item < nextId s1" using enqueue_Inr(1,6)[OF e] by simp
  then show ?thesis using fresh_inv_begin[OF fresh_inv_enqueue[OF assms e]] h by simp
qed


lemma guard_inv_upd [simp]:
  "guard_inv (s\<lparr>replays := r\<rparr>) = guard_inv s"
  "guard_inv (s\<lparr>trace := t\<rparr>) = guard_inv s"
  "guard_inv (s\<lparr>timers := ts\<rparr>) = guard_inv s"
  by (simp_all add: guard_inv_def)

lemma fresh_inv_timers [simp]: "fresh_inv (s\<lparr>timers := ts\<rparr>) = fresh_inv s"
  by (simp add: fresh_inv_def)

lemma fresh_inv_waited: "fresh_inv s \<Longrightarrow> fresh_inv (s\<lparr>trace := trace s @ [Waited n]\<rparr>)"
  by (simp add: fresh_inv_def trace_id_ok_def)

lemma fresh_inv_replays:
  assumes "fresh_inv s" "\<forall>l\<in>set r. \<forall>i\<in>set (ids (remaining l)). i < nextId s"
  shows "fresh_inv (s\<lparr>replays := r\<rparr>)"
  using assms by (simp add: fresh_inv_def)

lemma replay_next_cases:
  "replay_next k s = s \<or>
   (\<exists>item rest a. k < length (replays s) \<and> remaining (replays s ! k) = item # rest \<and>
      awaiting (replays s ! k) = None \<and>
      replay_next k s =
        (processQueueItem_begin item (s\<lparr>trace := trace s @ [Waited STAGGER_DELAY_MS]\<rparr>))
          \<lparr>replays := (replays s)[k := \<lparr>remaining = rest, awaiting = a\<rparr>]\<rparr>)"
proof (cases "k < length (replays s)")
  case False
  then show ?thesis by (simp add: replay_next_def)
next
  case True
  show ?thesis
  proof (cases "awaiting (replays s ! k)")
    case (Some j)
    then show ?thesis using True by (simp add: replay_next_def Let_def)
  next
    case None
    show ?thesis
    proof (cases "remaining (replays s ! k)")
      case Nil
      then show ?thesis using True None by (simp add: replay_next_def Let_def)
    next
      case (Cons item rest)
      then have "replay_next k s =
        (processQueueItem_begin item (s\<lparr>trace := trace s @ [Waited STAGGER_DELAY_MS]\<rparr>))
          \<lparr>replays := (replays s)[k := \<lparr>remaining = rest,
             awaiting = (if id_q item \<notin> processingIds s then Some (id_q item) else None)\<rparr>]\<rparr>"
        using True None by (simp add: replay_next_def Let_def)
      then show ?thesis using True None Cons by blast
    qed
  qed
qed

lemma guard_inv_replay_next: "guard_inv s \<Longrightarrow> guard_inv (replay_next k s)"
  using replay_next_cases[of k s]
    guard_inv_begin[of "s\<lparr>trace := trace s @ [Waited STAGGER_DELAY_MS]\<rparr>"]
  by (elim disjE exE conjE) simp_all

lemma fresh_inv_replay_next:
  assumes "fresh_inv s" shows "fresh_inv (replay_next k s)"
  using replay_next_cases[of k s]
proof (elim disjE exE conjE)
  assume "replay_next k s = s"
  then show ?thesis using assms by simp
next
  fix item rest a
  let ?s1 = "s\<lparr>trace := trace s @ [Waited STAGGER_DELAY_MS]\<rparr>"
  assume k: "k < length (replays s)" and r: "remaining (replays s ! k) = item # rest"
    and e: "replay_next k s =
        (processQueueItem_begin item ?s1)
          \<lparr>replays := (replays s)[k := \<lparr>remaining = rest, awaiting = a\<rparr>]\<rparr>"
  have l: "\<forall>l\<in>set (replays s). \<forall>i\<in>set (ids (remaining l)). i < nextId s"
    using assms unfolding fresh_inv_def by simp
  have "replays s ! k \<in> set (replays s)" using k by simp
  then have b: "\<forall>i\<in>set (ids (item # rest)). i < nextId s" using l r by metis
  then have "id_q item < nextId ?s1" by simp
  then have f: "fresh_inv (processQueueItem_begin item ?s1)"
    using fresh_inv_begin[OF fresh_inv_waited[OF assms]] by simp
  have "\<forall>l\<in>set ((replays s)[k := \<lparr>remaining = rest, awaiting = a\<rparr>]).
          \<forall>i\<in>set (ids (remaining l)). i < nextId s"
  proof
    fix l assume "l \<in> set ((replays s)[k := \<lparr>remaining = rest, awaiting = a\<rparr>])"
    then have "l = \<lparr>remaining = rest, awaiting = a\<rparr> \<or> l \<in> set (replays s)"
      using set_update_subset_insert[of "replays s" k] by blast
    then show "\<forall>i\<in>set (ids (remaining l)). i < nextId s"
      using b l by auto
  qed
  then show ?thesis using fresh_inv_replays[OF f] e by simp
qed

lemma ids_getPendingItems: "set (ids (getPendingItems s)) \<subseteq> set (ids (queue s))"
  by (simp add: getPendingItems_def ids_filter_subset)

lemma remaining_resume [simp]: "remaining (resume i l) = remaining l"
  by (simp add: resume_def)

lemma guard_inv_step: "guard_inv s \<Longrightarrow> guard_inv (step e s)"
proof (cases e)
  case (FETCH_SETTLED i out)
  assume g: "guard_inv s"
  show ?thesis
  proof (cases "find (\<lambda>q. id_q q = i) (inflight s)")
    case None
    then show ?thesis using g FETCH_SETTLED by simp
  next
    case (Some item)
    then show ?thesis using g FETCH_SETTLED guard_inv_end[OF g, of item out] find_id[OF Some]
      by (simp add: Let_def)
  qed
qed (simp_all add: guard_inv_save guard_inv_retry guard_inv_dequeue guard_inv_replay_next)

lemma fresh_inv_step:
  assumes "fresh_inv s" shows "fresh_inv (step e s)"
proof (cases e)
  case (FETCH_SETTLED i out)
  show ?thesis
  proof (cases "find (\<lambda>q. id_q q = i) (inflight s)")
    case None
    then show ?thesis using assms FETCH_SETTLED by simp
  next
    case (Some item)
    have "id_q item \<in> set (ids (inflight s))" using find_id[OF Some] ids_mem by blast
    then have "id_q item < nextId s" using assms unfolding fresh_inv_def by simp
    then have f: "fresh_inv (processQueueItem_end item out s)" by (rule fresh_inv_end[OF assms])
    have "\<forall>l\<in>set (map (resume i) (replays s)). \<forall>i\<in>set (ids (remaining l)). i < nextId s"
      using assms unfolding fresh_inv_def by simp
    then show ?thesis using fresh_inv_replays[OF f] FETCH_SETTLED Some by (simp add: Let_def)
  qed
next
  case PROCESS_PENDING
  have "\<forall>i\<in>set (ids (getPendingItems s)). i < nextId s"
    using assms ids_getPendingItems[of s] unfolding fresh_inv_def by blast
  then have "\<forall>l\<in>set (replays s @ [\<lparr>remaining = getPendingItems s, awaiting = None\<rparr>]).
          \<forall>i\<in>set (ids (remaining l)). i < nextId s"
    using assms unfolding fresh_inv_def by simp
  then show ?thesis using fresh_inv_replays[OF assms] PROCESS_PENDING by simp
qed (simp_all add: assms fresh_inv_save fresh_inv_retry fresh_inv_dequeue fresh_inv_replay_next)

lemma wf_step: "wf s \<Longrightarrow> wf (step e s)"
  by (simp add: wf_def guard_inv_step fresh_inv_step)

lemma wf_run: "wf s \<Longrightarrow> wf (run es s)"
  by (induction es arbitrary: s) (simp_all add: wf_step)

lemma guard_inv_run: "guard_inv s \<Longrightarrow> guard_inv (run es s)"
  by (induction es arbitrary: s) (simp_all add: guard_inv_step)

lemma guard_inv_start: "guard_inv (start_worker q n)"
  by (simp add: guard_inv_def start_worker_def)

lemma wf_start: "wf (start_worker [] n)"
  by (simp add: wf_def guard_inv_def fresh_inv_def start_worker_def)

section \<open>Validation and capacity\<close>

text \<open>
  Claim C5. A capture whose text is shorter than the minimum length (10) or longer than the
  maximum length (10000) is rejected by \<^verbatim>\<open>handleSaveSnippet\<close> at once with an error
  response; the worker's state is the same afterwards, so nothing entered the queue and the
  number of entries of the store is unchanged.
\<close>

theorem handleSaveSnippet_rejects_length:
  assumes "length (text_p p) < MIN_SELECTION_LENGTH \<or> MAX_SELECTION_LENGTH < length (text_p p)"
  shows "(\<exists>msg. fst (handleSaveSnippet p isDuplicate now s) = Inr (StatusError msg)) \<and>
         snd (handleSaveSnippet p isDuplicate now s) = s \<and>
         step (SAVE_SNIPPET p isDuplicate now) s = s \<and>
         length (getQueue (step (SAVE_SNIPPET p isDuplicate now) s)) = length (getQueue s)"
  using assms by (auto simp: handleSaveSnippet_def)

theorem handleSaveSnippet_rejects_length_witness:
  "(length (text_p short_payload) < MIN_SELECTION_LENGTH \<or>
      MAX_SELECTION_LENGTH < length (text_p short_payload)) \<and>
   fst (handleSaveSnippet short_payload False 0 (start_worker [] 0)) =
      Inr (StatusError ''Selection too short (minimum 10 characters)'') \<and>
   step (SAVE_SNIPPET short_payload False 0) (start_worker [] 0) = start_worker [] 0"
  using handleSaveSnippet_rejects_length [of short_payload False 0 "start_worker [] 0"]
  by (simp add: short_payload_def sample_payload_def MIN_SELECTION_LENGTH_def handleSaveSnippet_def)

text \<open>
  Claim C8. When the store already holds \<^verbatim>\<open>MAX_QUEUE_SIZE\<close> (100) entries,
  \<^verbatim>\<open>enqueue\<close> fails with \<open>CapacityExceeded\<close>; the submit that called it leaves the
  state as it was, so the capture is not in the queue and no entry was evicted, and for a
  capture that passed validation the failure is what the producer receives.
\<close>

theorem enqueue_at_capacity:
  assumes "MAX_QUEUE_SIZE \<le> length (getQueue s)"
  shows "enqueue p now s = Inl CapacityExceeded \<and>
         snd (handleSaveSnippet p isDuplicate now s) = s \<and>
         step (SAVE_SNIPPET p isDuplicate now) s = s \<and>
         (MIN_SELECTION_LENGTH \<le> length (text_p p) \<and> length (text_p p) \<le> MAX_SELECTION_LENGTH \<and>
          \<not> isDuplicate \<longrightarrow> fst (handleSaveSnippet p isDuplicate now s) = Inl CapacityExceeded)"
  using assms by (auto simp: handleSaveSnippet_def enqueue_def getQueue_def MIN_SELECTION_LENGTH_def)

theorem enqueue_at_capacity_witness:
  "MAX_QUEUE_SIZE \<le> length (getQueue (start_worker (replicate 100 (sample_item 0 Failed)) 1)) \<and>
   MIN_SELECTION_LENGTH \<le> length (text_p sample_payload) \<and>
   length (text_p sample_payload) \<le> MAX_SELECTION_LENGTH \<and>
   enqueue sample_payload 0 (start_worker (replicate 100 (sample_item 0 Failed)) 1) = Inl CapacityExceeded \<and>
   handleSaveSnippet sample_payload False 0 (start_worker (replicate 100 (sample_item 0 Failed)) 1) =
     (Inl CapacityExceeded, start_worker (replicate 100 (sample_item 0 Failed)) 1)"
  using enqueue_at_capacity [of "start_worker (replicate 100 (sample_item 0 Failed)) 1" sample_payload 0 False]
  by (simp add: sample_payload_def MIN_SELECTION_LENGTH_def MAX_SELECTION_LENGTH_def
      MAX_QUEUE_SIZE_def getQueue_def start_worker_def prod_eq_iff)

section \<open>The state summary\<close>

text \<open>
  Claim C10. In every state, \<^verbatim>\<open>pendingCount\<close> of the summary is the number of entries
  whose status is pending or saving, and \<^verbatim>\<open>recentSaves\<close> are the last ten entries of the
  queue in its order (all of them when there are fewer), each with its id, its source
  domain, the first 100 characters of its text, and its status with saving reported as
  pending.
\<close>

theorem handleSyncState_summary:
  "pendingCount (handleSyncState s) =
     card {k. k < length (getQueue s) \<and>
              (status (getQueue s ! k) = Pending \<or> status (getQueue s ! k) = Saving)} \<and>
   length (recentSaves (handleSyncState s)) = min 10 (length (getQueue s)) \<and>
   (\<forall>k < length (recentSaves (handleSyncState s)).
      let item = getQueue s ! (length (getQueue s) - length (recentSaves (handleSyncState s)) + k);
          r = recentSaves (handleSyncState s) ! k
      in id_r r = id_q item \<and>
         text_r r = take 100 (text_p (payload item)) \<and>
         sourceDomain_r r = sourceDomain (payload item) \<and>
         status_r r = (if status item = Failed then SFailed else SPending))"
proof -
  have a: "pendingCount (handleSyncState s) =
     card {k. k < length (getQueue s) \<and>
              (status (getQueue s ! k) = Pending \<or> status (getQueue s ! k) = Saving)}"
    by (simp add: handleSyncState_def length_filter_conv_card)
  have b: "length (recentSaves (handleSyncState s)) = min 10 (length (getQueue s))"
    by (simp add: handleSyncState_def slice_last_def)
  have c: "\<forall>k < length (recentSaves (handleSyncState s)).
      let item = getQueue s ! (length (getQueue s) - length (recentSaves (handleSyncState s)) + k);
          r = recentSaves (handleSyncState s) ! k
      in id_r r = id_q item \<and>
         text_r r = take 100 (text_p (payload item)) \<and>
         sourceDomain_r r = sourceDomain (payload item) \<and>
         status_r r = (if status item = Failed then SFailed else SPending)"
  proof (intro allI impI)
    fix k assume k: "k < length (recentSaves (handleSyncState s))"
    then have k': "k < min 10 (length (getQueue s))" using b by simp
    have "k < length (getQueue s) - (length (getQueue s) - 10)"
      using k' by arith
    then have "k < length (drop (length (getQueue s) - 10) (getQueue s))"
      by simp
    then have "recentSaves (handleSyncState s) ! k =
        summarize (getQueue s ! (length (getQueue s) - 10 + k))"
      by (simp add: handleSyncState_def slice_last_def)
    moreover have "length (getQueue s) - length (recentSaves (handleSyncState s)) + k
        = length (getQueue s) - 10 + k"
      using b k' by (simp add: min_def split: if_splits)
    ultimately show "let item = getQueue s ! (length (getQueue s) - length (recentSaves (handleSyncState s)) + k);
          r = recentSaves (handleSyncState s) ! k
      in id_r r = id_q item \<and>
         text_r r = take 100 (text_p (payload item)) \<and>
         sourceDomain_r r = sourceDomain (payload item) \<and>
         status_r r = (if status item = Failed then SFailed else SPending)"
      by (simp add: Let_def summarize_def split: item_status.splits)
  qed
  show ?thesis using a b c by blast
qed

theorem handleSyncState_summary_witness:
  "(1::nat) < length (recentSaves (handleSyncState (start_worker [sample_item 0 Failed, sample_item 1 Saving] 2))) \<and>
   pendingCount (handleSyncState (start_worker [sample_item 0 Failed, sample_item 1 Saving] 2)) = 1 \<and>
   status_r (recentSaves (handleSyncState (start_worker [sample_item 0 Failed, sample_item 1 Saving] 2)) ! 1) = SPending \<and>
   text_r (recentSaves (handleSyncState (start_worker [sample_item 0 Failed, sample_item 1 Saving] 2)) ! 1) =
     ''The quick brown fox jumps''"
  using handleSyncState_summary [of "start_worker [sample_item 0 Failed, sample_item 1 Saving] 2"]
  by (simp add: handleSyncState_def getQueue_def start_worker_def sample_item_def slice_last_def
      summarize_def sample_payload_def)

section \<open>The guard on concurrent attempts\<close>

text \<open>The state after one accepted submit to a worker that has just started.\<close>

lemma sample_submitted:
  "run [SAVE_SNIPPET sample_payload False 0] (start_worker [] 0) =
     \<lparr>queue = [sample_item 0 Saving], nextId = 1, processingIds = {0},
      inflight = [sample_item 0 Pending], timers = [], replays = [],
      trace = [Post (sample_item 0 Pending)]\<rparr>"
  by (simp add: start_worker_def handleSaveSnippet_def enqueue_def sample_payload_def
      sample_item_def MIN_SELECTION_LENGTH_def MAX_SELECTION_LENGTH_def MAX_QUEUE_SIZE_def
      processQueueItem_begin_def updateItemStatus_def update_entry_def Let_def)

text \<open>
  Claim C6. In every state the worker reaches from its start, whatever the events, the
  delivery attempts under way have pairwise different ids and \<^verbatim>\<open>processingIds\<close> is
  exactly the set of their ids; a call of \<^verbatim>\<open>processQueueItem\<close> for an id in that set
  returns without starting an attempt, and a call for another id starts one and adds the
  id to the set.
\<close>

theorem no_concurrent_attempts:
  "distinct (ids (inflight (run es (start_worker q n)))) \<and>
   set (ids (inflight (run es (start_worker q n)))) = processingIds (run es (start_worker q n)) \<and>
   (\<forall>item. id_q item \<in> processingIds (run es (start_worker q n)) \<longrightarrow>
      processQueueItem_begin item (run es (start_worker q n)) = run es (start_worker q n)) \<and>
   (\<forall>item. id_q item \<notin> processingIds (run es (start_worker q n)) \<longrightarrow>
      inflight (processQueueItem_begin item (run es (start_worker q n))) =
        inflight (run es (start_worker q n)) @ [item] \<and>
      processingIds (processQueueItem_begin item (run es (start_worker q n))) =
        insert (id_q item) (processingIds (run es (start_worker q n))))"
  using guard_inv_run [OF guard_inv_start, of es q n]
  by (simp add: guard_inv_def begin_skip begin_go)

theorem no_concurrent_attempts_witness:
  "id_q (sample_item 0 Saving) \<in>
     processingIds (run [SAVE_SNIPPET sample_payload False 0] (start_worker [] 0)) \<and>
   processQueueItem_begin (sample_item 0 Saving)
     (run [SAVE_SNIPPET sample_payload False 0] (start_worker [] 0)) =
     run [SAVE_SNIPPET sample_payload False 0] (start_worker [] 0) \<and>
   id_q (sample_item 1 Pending) \<notin>
     processingIds (run [SAVE_SNIPPET sample_payload False 0] (start_worker [] 0)) \<and>
   inflight (processQueueItem_begin (sample_item 1 Pending)
     (run [SAVE_SNIPPET sample_payload False 0] (start_worker [] 0))) =
     [sample_item 0 Pending, sample_item 1 Pending]"
  using no_concurrent_attempts [of "[SAVE_SNIPPET sample_payload False 0]" "[]" 0]
  unfolding sample_submitted by (simp add: sample_item_def)

section \<open>Submit and success\<close>

lemma begin_inflight_mono: "x \<in> set (inflight s) \<Longrightarrow> x \<in> set (inflight (processQueueItem_begin item s))"
  by (cases "id_q item \<in> processingIds s") (simp_all add: begin_skip begin_go)

lemma begin_trace_cases:
  "trace (processQueueItem_begin item s) = trace s \<or>
   trace (processQueueItem_begin item s) = trace s @ [Post item]"
  by (cases "id_q item \<in> processingIds s") (simp_all add: begin_skip begin_go)

lemma success_for_begin [simp]:
  "filter (is_success_for i) (trace (processQueueItem_begin item s)) = filter (is_success_for i) (trace s)"
  using begin_trace_cases[of item s] by (auto simp: is_success_for_def)

lemma success_for_retry [simp]:
  "filter (is_success_for i) (trace (retryQueueItem j s)) = filter (is_success_for i) (trace s)"
  using retry_cases[of j s] by (elim disjE exE conjE) simp_all

lemma inflight_retry_mono: "x \<in> set (inflight s) \<Longrightarrow> x \<in> set (inflight (retryQueueItem j s))"
  using retry_cases[of j s] begin_inflight_mono[of x s] by (elim disjE exE conjE) simp_all

lemma success_for_save [simp]:
  "filter (is_success_for i) (trace (snd (handleSaveSnippet p d now s))) = filter (is_success_for i) (trace s)"
  using handleSaveSnippet_cases[of p d now s]
  by (elim disjE exE conjE) (simp_all add: enqueue_Inr)

lemma inflight_save_mono: "x \<in> set (inflight s) \<Longrightarrow> x \<in> set (inflight (snd (handleSaveSnippet p d now s)))"
  using handleSaveSnippet_cases[of p d now s]
proof (elim disjE exE conjE)
  assume "x \<in> set (inflight s)" "snd (handleSaveSnippet p d now s) = s"
  then show ?thesis by simp
next
  fix item s1
  assume x: "x \<in> set (inflight s)" and e: "enqueue p now s = Inr (item, s1)"
    and h: "handleSaveSnippet p d now s = (Inr (StatusPending (id_q item)), processQueueItem_begin item s1)"
  have "x \<in> set (inflight s1)" using x enqueue_Inr(8)[OF e] by simp
  then show ?thesis using h begin_inflight_mono by simp
qed

lemma trace_on_failure_cases:
  "trace (on_failure item e s) = trace s \<or>
   (\<exists>m sp. trace (on_failure item e s) = trace s @
      [Publish (SAVE_RESULT \<lparr>success = False, snippetId = None, error = Some m,
                 originalText = text_p (payload item), queueId = Some (id_q item)\<rparr>),
       Publish (STATE_UPDATE sp)])"
  by (simp add: on_failure_def Let_def)

lemma success_for_end_other:
  assumes "id_q item \<noteq> i"
  shows "filter (is_success_for i) (trace (processQueueItem_end item out s)) = filter (is_success_for i) (trace s)"
  using end_trace_cases[of item out s]
proof (elim disjE exE)
  fix b assume "trace (processQueueItem_end item out s) = trace (on_success item b s)"
  then show ?thesis using assms by (simp add: trace_on_success is_success_for_def)
next
  fix e assume t: "trace (processQueueItem_end item out s) = trace (on_failure item e s)"
  show ?thesis using trace_on_failure_cases[of item e s] t
    by (elim disjE exE) (simp_all add: is_success_for_def)
qed

lemma success_for_replay_next [simp]:
  "filter (is_success_for i) (trace (replay_next k s)) = filter (is_success_for i) (trace s)"
  using replay_next_cases[of k s]
  by (elim disjE exE conjE) (simp_all add: is_success_for_def)

lemma inflight_replay_next_mono: "x \<in> set (inflight s) \<Longrightarrow> x \<in> set (inflight (replay_next k s))"
  using replay_next_cases[of k s]
    begin_inflight_mono[of x "s\<lparr>trace := trace s @ [Waited STAGGER_DELAY_MS]\<rparr>"]
  by (elim disjE exE conjE) simp_all

lemma success_for_step:
  assumes "\<not> settles i e"
  shows "filter (is_success_for i) (trace (step e s)) = filter (is_success_for i) (trace s)"
proof (cases e)
  case (FETCH_SETTLED j out)
  then have ji: "j \<noteq> i" using assms by (simp add: settles_def)
  show ?thesis
  proof (cases "find (\<lambda>q. id_q q = j) (inflight s)")
    case None
    then show ?thesis using FETCH_SETTLED by simp
  next
    case (Some item)
    then have "id_q item \<noteq> i" using find_id[OF Some] ji by simp
    then show ?thesis using FETCH_SETTLED Some success_for_end_other[of item i out s]
      by (simp add: Let_def)
  qed
qed simp_all

lemma inflight_step_mono:
  assumes "x \<in> set (inflight s)" "\<not> settles (id_q x) e"
  shows "x \<in> set (inflight (step e s))"
proof (cases e)
  case (FETCH_SETTLED j out)
  then have ji: "j \<noteq> id_q x" using assms(2) by (simp add: settles_def)
  show ?thesis
  proof (cases "find (\<lambda>q. id_q q = j) (inflight s)")
    case None
    then show ?thesis using FETCH_SETTLED assms(1) by simp
  next
    case (Some item)
    then have "item \<noteq> x" using find_id[OF Some] ji by auto
    then show ?thesis using FETCH_SETTLED Some assms(1) by (simp add: Let_def)
  qed
qed (simp_all add: assms(1) inflight_save_mono inflight_retry_mono inflight_replay_next_mono)

lemma inflight_run_mono:
  "x \<in> set (inflight s) \<Longrightarrow> \<forall>e\<in>set es. \<not> settles (id_q x) e \<Longrightarrow> x \<in> set (inflight (run es s))"
  by (induction es arbitrary: s) (simp_all add: inflight_step_mono)

lemma success_for_run:
  "\<forall>e\<in>set es. \<not> settles i e \<Longrightarrow>
   filter (is_success_for i) (trace (run es s)) = filter (is_success_for i) (trace s)"
  by (induction es arbitrary: s) (simp_all add: success_for_step)

lemma find_inflight:
  assumes "guard_inv s" "x \<in> set (inflight s)"
  shows "find (\<lambda>q. id_q q = id_q x) (inflight s) = Some x"
proof -
  have d: "distinct (map id_q (inflight s))" using assms(1) by (simp add: guard_inv_def ids_def)
  obtain y where y: "find (\<lambda>q. id_q q = id_q x) (inflight s) = Some y"
    using assms(2) find_None_id[of "id_q x" "inflight s"] ids_mem[OF assms(2)] by (cases "find (\<lambda>q. id_q q = id_q x) (inflight s)") auto
  then have "y \<in> set (inflight s)" "id_q y = id_q x" using find_id[OF y] by simp_all
  then have "y = x" using d assms(2) by (meson distinct_map inj_onD)
  then show ?thesis using y by simp
qed

lemma processingIds_fresh: "wf s \<Longrightarrow> nextId s \<notin> processingIds s"
  unfolding wf_def guard_inv_def fresh_inv_def by blast

lemma success_for_fresh:
  assumes "fresh_inv s"
  shows "filter (is_success_for (nextId s)) (trace s) = []"
proof -
  have "\<And>e. trace_id_ok (nextId s) e \<Longrightarrow> \<not> is_success_for (nextId s) e"
    by (auto simp: trace_id_ok_def is_success_for_def split: effect.splits message.splits option.splits)
  then show ?thesis using assms unfolding fresh_inv_def by (simp add: filter_empty_conv)
qed

lemma submit_accepted:
  assumes "wf s" "MIN_SELECTION_LENGTH \<le> length (text_p p)"
    "length (text_p p) \<le> MAX_SELECTION_LENGTH" "length (getQueue s) < MAX_QUEUE_SIZE"
  obtains item where
    "fst (handleSaveSnippet p False now s) = Inr (StatusPending (nextId s))"
    "id_q item = nextId s" "payload item = p" "retryCount item = 0"
    "item \<in> set (inflight (step (SAVE_SNIPPET p False now) s))"
    "trace (step (SAVE_SNIPPET p False now) s) = trace s @ [Post item]"
    "nextId (step (SAVE_SNIPPET p False now) s) = Suc (nextId s)"
    "\<exists>q\<in>set (queue (step (SAVE_SNIPPET p False now) s)).
        id_q q = nextId s \<and> retryCount q = 0 \<and> status q = Saving \<and> payload q = p"
proof -
  define item where "item = \<lparr>id_q = nextId s, createdAt = now, retryCount = 0, lastError = None,
                    status = Pending, payload = p\<rparr>"
  define s1 where "s1 = s\<lparr>queue := queue s @ [item], nextId := Suc (nextId s)\<rparr>"
  have e: "enqueue p now s = Inr (item, s1)"
    using assms(4) by (simp add: enqueue_def Let_def item_def s1_def getQueue_def)
  have t: "text_p p \<noteq> []" using assms(2) by (auto simp: MIN_SELECTION_LENGTH_def)
  have h: "handleSaveSnippet p False now s =
      (Inr (StatusPending (id_q item)), processQueueItem_begin item s1)"
    using assms(2,3) t by (simp add: handleSaveSnippet_def e)
  have n: "id_q item \<notin> processingIds s1"
    using processingIds_fresh[OF assms(1)] by (simp add: item_def s1_def)
  have st: "step (SAVE_SNIPPET p False now) s = processQueueItem_begin item s1"
    using h by simp
  have q: "queue (processQueueItem_begin item s1) =
      map (\<lambda>q. if id_q q = id_q item then update_entry Saving None q else q) (queue s @ [item])"
    using begin_go(4)[OF n] by (simp add: updateItemStatus_def s1_def)
  have "update_entry Saving None item \<in> set (queue (processQueueItem_begin item s1))"
    unfolding q by simp
  then have qq: "\<exists>q\<in>set (queue (step (SAVE_SNIPPET p False now) s)).
        id_q q = nextId s \<and> retryCount q = 0 \<and> status q = Saving \<and> payload q = p"
    unfolding st by (rule bexI[rotated]) (simp add: update_entry_def item_def)
  show thesis
  proof (rule that[of item])
    show "fst (handleSaveSnippet p False now s) = Inr (StatusPending (nextId s))"
      using h by (simp add: item_def)
    show "id_q item = nextId s" "payload item = p" "retryCount item = 0"
      by (simp_all add: item_def)
    show "item \<in> set (inflight (step (SAVE_SNIPPET p False now) s))"
      unfolding st using begin_go(2)[OF n] by simp
    show "trace (step (SAVE_SNIPPET p False now) s) = trace s @ [Post item]"
      unfolding st using begin_go(3)[OF n] by (simp add: s1_def)
    show "nextId (step (SAVE_SNIPPET p False now) s) = Suc (nextId s)"
      unfolding st by (simp add: s1_def)
    show "\<exists>q\<in>set (queue (step (SAVE_SNIPPET p False now) s)).
        id_q q = nextId s \<and> retryCount q = 0 \<and> status q = Saving \<and> payload q = p"
      by (rule qq)
  qed
qed

lemma response_result_ok: "ok r \<Longrightarrow> json r = Inr b \<Longrightarrow> response_result (Resolved r) = Inr b"
  by (simp add: response_result_def)

lemma handleSyncState_queue: "queue s = queue s' \<Longrightarrow> handleSyncState s = handleSyncState s'"
  by (simp add: handleSyncState_def getQueue_def)

lemma settle_success:
  assumes "guard_inv s" "item \<in> set (inflight s)" "ok r" "json r = Inr b"
  shows "queue (step (FETCH_SETTLED (id_q item) (Resolved r)) s) =
           filter (\<lambda>q. id_q q \<noteq> id_q item) (queue s)"
    and "trace (step (FETCH_SETTLED (id_q item) (Resolved r)) s) = trace s @
     [Publish (SAVE_RESULT \<lparr>success = True, snippetId = id_j b, error = None,
                 originalText = text_p (payload item), queueId = Some (id_q item)\<rparr>),
      Publish (STATE_UPDATE (handleSyncState (step (FETCH_SETTLED (id_q item) (Resolved r)) s)))]"
proof -
  have f: "find (\<lambda>q. id_q q = id_q item) (inflight s) = Some item"
    by (rule find_inflight[OF assms(1,2)])
  have rr: "response_result (Resolved r) = Inr b" by (rule response_result_ok[OF assms(3,4)])
  show q: "queue (step (FETCH_SETTLED (id_q item) (Resolved r)) s) =
           filter (\<lambda>q. id_q q \<noteq> id_q item) (queue s)"
    using f rr by (simp add: Let_def processQueueItem_end_def)
  have "handleSyncState (dequeue (id_q item) s) =
        handleSyncState (step (FETCH_SETTLED (id_q item) (Resolved r)) s)"
    by (rule handleSyncState_queue) (simp only: q dequeue_fields)
  then show "trace (step (FETCH_SETTLED (id_q item) (Resolved r)) s) = trace s @
     [Publish (SAVE_RESULT \<lparr>success = True, snippetId = id_j b, error = None,
                 originalText = text_p (payload item), queueId = Some (id_q item)\<rparr>),
      Publish (STATE_UPDATE (handleSyncState (step (FETCH_SETTLED (id_q item) (Resolved r)) s)))]"
    using f rr by (simp add: Let_def processQueueItem_end_def trace_on_success)
qed

text \<open>
  Claim C1. In a well-formed state with room in the store, the submit of a capture whose
  text is within the size bounds and is not a duplicate is accepted with a new queue id.
  Whatever the worker does before the request of that attempt settles, once it settles
  with a successful remote write the entry is absent from the queue listing, the worker
  publishes the success broadcast with that queue id (followed by the state update), and
  the whole trace holds exactly one success broadcast with that queue id.
\<close>

theorem submit_then_success:
  assumes "wf s"
    and "MIN_SELECTION_LENGTH \<le> length (text_p p)"
    and "length (text_p p) \<le> MAX_SELECTION_LENGTH"
    and "length (getQueue s) < MAX_QUEUE_SIZE"
    and "\<forall>e\<in>set es. \<not> settles (nextId s) e"
    and "ok r" and "json r = Inr snippet"
  shows "fst (handleSaveSnippet p False now s) = Inr (StatusPending (nextId s)) \<and>
    (let s1 = step (SAVE_SNIPPET p False now) s;
         s2 = run es s1;
         s3 = step (FETCH_SETTLED (nextId s) (Resolved r)) s2
     in nextId s \<notin> set (ids (getQueue s3)) \<and>
        trace s3 = trace s2 @
          [Publish (SAVE_RESULT \<lparr>success = True, snippetId = id_j snippet, error = None,
                      originalText = text_p p, queueId = Some (nextId s)\<rparr>),
           Publish (STATE_UPDATE (handleSyncState s3))] \<and>
        filter (is_success_for (nextId s)) (trace s3) =
          [Publish (SAVE_RESULT \<lparr>success = True, snippetId = id_j snippet, error = None,
                      originalText = text_p p, queueId = Some (nextId s)\<rparr>)])"
proof -
  let ?i = "nextId s"
  let ?s1 = "step (SAVE_SNIPPET p False now) s"
  let ?s2 = "run es ?s1"
  let ?s3 = "step (FETCH_SETTLED ?i (Resolved r)) ?s2"
  obtain item where a: "fst (handleSaveSnippet p False now s) = Inr (StatusPending ?i)"
    and i: "id_q item = ?i" and p: "payload item = p"
    and f: "item \<in> set (inflight ?s1)" and t: "trace ?s1 = trace s @ [Post item]"
    using submit_accepted[OF assms(1-4), of now] by metis
  have g2: "guard_inv ?s2"
    using assms(1) guard_inv_step guard_inv_run unfolding wf_def by blast
  have f2: "item \<in> set (inflight ?s2)"
    using inflight_run_mono[OF f] assms(5) i by simp
  have "filter (is_success_for ?i) (trace ?s1) = []"
    using success_for_fresh[of s] assms(1) t unfolding wf_def by (simp add: is_success_for_def)
  then have n2: "filter (is_success_for ?i) (trace ?s2) = []"
    using success_for_run[OF assms(5), of ?s1] by simp
  note ss = settle_success[OF g2 f2 assms(6,7), unfolded i p]
  have q3: "?i \<notin> set (ids (getQueue ?s3))"
    unfolding getQueue_def ss(1) by simp
  have s3: "filter (is_success_for ?i) (trace ?s3) =
          [Publish (SAVE_RESULT \<lparr>success = True, snippetId = id_j snippet, error = None,
                      originalText = text_p p, queueId = Some ?i\<rparr>)]"
    unfolding ss(2) using n2 by (simp add: is_success_for_def)
  show ?thesis
    unfolding Let_def using a q3 ss(2) s3 by blast
qed


theorem submit_then_success_witness:
  "wf (start_worker [] 0) \<and>
   MIN_SELECTION_LENGTH \<le> length (text_p sample_payload) \<and>
   length (text_p sample_payload) \<le> MAX_SELECTION_LENGTH \<and>
   length (getQueue (start_worker [] 0)) < MAX_QUEUE_SIZE \<and>
   \<not> settles (nextId (start_worker [] 0)) SYNC_STATE \<and>
   ok created_response \<and>
   json created_response = Inr \<lparr>error_j = None, id_j = Some ''s1''\<rparr> \<and>
   fst (handleSaveSnippet sample_payload False 0 (start_worker [] 0)) = Inr (StatusPending 0) \<and>
   0 \<notin> set (ids (getQueue
     (step (FETCH_SETTLED 0 (Resolved created_response))
       (run [SYNC_STATE] (step (SAVE_SNIPPET sample_payload False 0) (start_worker [] 0)))))) \<and>
   filter (is_success_for 0) (trace
     (step (FETCH_SETTLED 0 (Resolved created_response))
       (run [SYNC_STATE] (step (SAVE_SNIPPET sample_payload False 0) (start_worker [] 0))))) =
     [Publish (SAVE_RESULT \<lparr>success = True, snippetId = Some ''s1'', error = None,
                 originalText = ''The quick brown fox jumps'', queueId = Some 0\<rparr>)]"
proof -
  have h: "MIN_SELECTION_LENGTH \<le> length (text_p sample_payload)"
    "length (text_p sample_payload) \<le> MAX_SELECTION_LENGTH"
    "length (getQueue (start_worker [] 0)) < MAX_QUEUE_SIZE"
    "\<forall>e\<in>set [SYNC_STATE]. \<not> settles (nextId (start_worker [] 0)) e"
    "ok created_response"
    "json created_response = Inr \<lparr>error_j = None, id_j = Some ''s1''\<rparr>"
    by (simp_all add: sample_payload_def MIN_SELECTION_LENGTH_def MAX_SELECTION_LENGTH_def
        MAX_QUEUE_SIZE_def getQueue_def start_worker_def settles_def ok_def created_response_def)
  have n: "nextId (start_worker [] 0) = 0" "text_p sample_payload = ''The quick brown fox jumps''"
    by (simp_all add: start_worker_def sample_payload_def)
  note t = submit_then_success [OF wf_start h, of 0, unfolded Let_def n]
  show ?thesis
    using t [THEN conjunct1] t [THEN conjunct2, THEN conjunct1]
      t [THEN conjunct2, THEN conjunct2, THEN conjunct2] h wf_start [of 0]
    by (simp del: step.simps run.simps)
qed

section \<open>Classification of failures\<close>

lemma includes_eval:
  "\<not> includes_str ''Internal Server Error'' ''network''"
  "\<not> includes_str ''Internal Server Error'' ''HTTP 5''"
  "\<not> includes_str ''Failed to fetch'' ''network''"
  "\<not> includes_str ''Failed to fetch'' ''HTTP 5''"
  by simp_all

text \<open>
  Claim C2 says that a response with a status of 500 or more and a network failure are
  retryable. \<^verbatim>\<open>isRetryableError\<close> decides on the text of the message. For a response that
  is not \<^verbatim>\<open>ok\<close> the message is the \<^verbatim>\<open>error\<close> field of the body when there is one,
  and \<^verbatim>\<open>HTTP\<close> followed by the status only otherwise. So a response with status 500 and
  the body \<^verbatim>\<open>{"error": "Internal Server Error"}\<close> is not classified as retryable: the
  entry of a first attempt becomes failed at once and no retry timer is set. The same holds
  for a rejected request whose message is \<^verbatim>\<open>Failed to fetch\<close>.
\<close>

theorem server_error_with_body_not_retried:
  "\<not> ok server_error_response \<and>
   response_result (Resolved server_error_response) = Inl (ErrorObj ''Error'' ''Internal Server Error'') \<and>
   \<not> isRetryableError (ErrorObj ''Error'' ''Internal Server Error'') \<and>
   \<not> isRetryableError (ErrorObj ''TypeError'' ''Failed to fetch'') \<and>
   queue (run [SAVE_SNIPPET sample_payload False 0, FETCH_SETTLED 0 (Resolved server_error_response)]
            (start_worker [] 0)) =
     [(sample_item 0 Failed)\<lparr>lastError := Some ''Internal Server Error''\<rparr>] \<and>
   timers (run [SAVE_SNIPPET sample_payload False 0, FETCH_SETTLED 0 (Resolved server_error_response)]
            (start_worker [] 0)) = []"
proof -
  have a: "\<not> ok server_error_response"
    by (simp add: ok_def server_error_response_def)
  have b: "response_result (Resolved server_error_response) = Inl (ErrorObj ''Error'' ''Internal Server Error'')"
    by (simp add: response_result_def ok_def server_error_response_def)
  have c: "\<not> isRetryableError (ErrorObj ''Error'' ''Internal Server Error'')"
    "\<not> isRetryableError (ErrorObj ''TypeError'' ''Failed to fetch'')"
    by (simp_all add: isRetryableError_def includes_eval)
  have r: "run [SAVE_SNIPPET sample_payload False 0, FETCH_SETTLED 0 (Resolved server_error_response)]
            (start_worker [] 0) =
        step (FETCH_SETTLED 0 (Resolved server_error_response))
          (run [SAVE_SNIPPET sample_payload False 0] (start_worker [] 0))"
    by simp
  have d: "queue (run [SAVE_SNIPPET sample_payload False 0, FETCH_SETTLED 0 (Resolved server_error_response)]
            (start_worker [] 0)) =
     [(sample_item 0 Failed)\<lparr>lastError := Some ''Internal Server Error''\<rparr>]"
    "timers (run [SAVE_SNIPPET sample_payload False 0, FETCH_SETTLED 0 (Resolved server_error_response)]
            (start_worker [] 0)) = []"
    unfolding r sample_submitted
    by (simp_all add: processQueueItem_end_def b on_failure_def errorMessage_def c Let_def
        sample_item_def updateItemStatus_def update_entry_def broadcastMessage_def)
  show ?thesis using a b c d by blast
qed

section \<open>Final failure\<close>



lemma ids_queue_retry [simp]: "ids (queue (retryQueueItem j s)) = ids (queue s)"
  using retry_cases[of j s] by (elim disjE exE conjE) simp_all

lemma ids_queue_replay_next [simp]: "ids (queue (replay_next k s)) = ids (queue s)"
  using replay_next_cases[of k s]
    begin_fields(4)[of _ "s\<lparr>trace := trace s @ [Waited STAGGER_DELAY_MS]\<rparr>"]
  by (elim disjE exE conjE) simp_all



lemma updateItemStatus_mem:
  "q \<in> set (queue s) \<Longrightarrow> id_q q = i \<Longrightarrow> update_entry st e q \<in> set (queue (updateItemStatus i st e s))"
  by (simp add: updateItemStatus_def rev_image_eqI)

lemma on_failure_final:
  assumes "\<not> isRetryableError e \<or> MAX_RETRIES \<le> retryCount item"
  shows "on_failure item e s =
     (let s1 = updateItemStatus (id_q item) Failed (Some (errorMessage e)) s;
          s2 = broadcastMessage (SAVE_RESULT
                 \<lparr>success = False, snippetId = None, error = Some (errorMessage e),
                  originalText = text_p (payload item), queueId = Some (id_q item)\<rparr>) s1
      in broadcastMessage (STATE_UPDATE (handleSyncState s2)) s2)"
  using assms by (auto simp: on_failure_def errorMessage_def Let_def)





section \<open>Discard and pending retry timers\<close>

lemma nextId_retry [simp]: "nextId (retryQueueItem j s) = nextId s"
  using retry_cases[of j s] by (elim disjE exE conjE) simp_all

lemma nextId_replay_next [simp]: "nextId (replay_next k s) = nextId s"
  using replay_next_cases[of k s] by (elim disjE exE conjE) simp_all

lemma absent_save:
  assumes "i < nextId s" "i \<notin> set (ids (queue s))"
  shows "i < nextId (snd (handleSaveSnippet p d now s)) \<and>
         i \<notin> set (ids (queue (snd (handleSaveSnippet p d now s))))"
  using handleSaveSnippet_cases[of p d now s]
proof (elim disjE exE conjE)
  assume "snd (handleSaveSnippet p d now s) = s"
  then show ?thesis using assms by simp
next
  fix item s1
  assume e: "enqueue p now s = Inr (item, s1)"
    and h: "handleSaveSnippet p d now s = (Inr (StatusPending (id_q item)), processQueueItem_begin item s1)"
  note n = enqueue_Inr[OF e]
  have "i \<notin> set (ids (queue s1))" using assms n(1,5) by simp
  moreover have "i < nextId s1" using assms(1) n(6) by simp
  ultimately show ?thesis using h by simp
qed

lemma absent_end:
  assumes "i \<notin> set (ids (queue s))"
  shows "i \<notin> set (ids (queue (processQueueItem_end item out s)))"
  using end_queue_cases[of item out s] assms by (elim disjE) simp_all

lemma absent_step:
  assumes "i < nextId s" "i \<notin> set (ids (queue s))"
  shows "i < nextId (step e s) \<and> i \<notin> set (ids (queue (step e s)))"
proof (cases e)
  case (FETCH_SETTLED j out)
  show ?thesis
  proof (cases "find (\<lambda>q. id_q q = j) (inflight s)")
    case None
    then show ?thesis using FETCH_SETTLED assms by simp
  next
    case (Some item)
    then show ?thesis using FETCH_SETTLED assms absent_end[OF assms(2), of item out]
      by (simp add: Let_def)
  qed
next
  case (SAVE_SNIPPET p d now)
  then show ?thesis using absent_save[OF assms] by simp
qed (simp_all add: assms)

lemma absent_run:
  "i < nextId s \<Longrightarrow> i \<notin> set (ids (queue s)) \<Longrightarrow>
   i < nextId (run es s) \<and> i \<notin> set (ids (queue (run es s)))"
  by (induction es arbitrary: s) (simp_all add: absent_step)

lemma retry_absent: "i \<notin> set (ids (getQueue s)) \<Longrightarrow> retryQueueItem i s = s"
  by (simp add: retryQueueItem_def find_None_id[symmetric])

lemma retry_saving:
  "find (\<lambda>q. id_q q = i) (getQueue s) = Some q \<Longrightarrow> status q = Saving \<Longrightarrow> retryQueueItem i s = s"
  by (simp add: retryQueueItem_def)

lemma timer_absent:
  assumes "i \<notin> set (ids (queue s))"
  shows "queue (step (TIMER_FIRED d i) s) = queue s" "inflight (step (TIMER_FIRED d i) s) = inflight s"
    "processingIds (step (TIMER_FIRED d i) s) = processingIds s"
    "trace (step (TIMER_FIRED d i) s) = trace s"
  using assms by (simp_all add: retry_absent getQueue_def)

text \<open>
  The timer path. After the discard of a failed entry the entry stays absent whatever the
  worker does, and a retry timer for its id that fires at any later point starts nothing:
  the store, the attempts under way, \<^verbatim>\<open>processingIds\<close> and the trace are as before.
  In general \<^verbatim>\<open>retryQueueItem\<close> does nothing when the entry is absent or its status is
  saving.
\<close>

lemma retry_timer_after_discard:
  assumes "fresh_inv s" and "q \<in> set (queue s)" and "id_q q = i" and "status q = Failed"
  shows "i \<notin> set (ids (getQueue (step (CLEAR_FAILED i) s))) \<and>
    (\<forall>es d. let s2 = run es (step (CLEAR_FAILED i) s); s3 = step (TIMER_FIRED d i) s2 in
       i \<notin> set (ids (getQueue s2)) \<and>
       queue s3 = queue s2 \<and> inflight s3 = inflight s2 \<and>
       processingIds s3 = processingIds s2 \<and> trace s3 = trace s2) \<and>
    (\<forall>s'. i \<notin> set (ids (getQueue s')) \<or>
          (\<exists>q'. find (\<lambda>q. id_q q = i) (getQueue s') = Some q' \<and> status q' = Saving) \<longrightarrow>
          retryQueueItem i s' = s')"
proof -
  let ?s1 = "step (CLEAR_FAILED i) s"
  have "i \<in> set (ids (queue s))" using ids_mem[OF assms(2)] assms(3) by simp
  then have n: "i < nextId ?s1" using assms(1) unfolding fresh_inv_def by simp
  have a: "i \<notin> set (ids (queue ?s1))" by simp
  have b: "\<forall>es d. let s2 = run es ?s1; s3 = step (TIMER_FIRED d i) s2 in
       i \<notin> set (ids (getQueue s2)) \<and>
       queue s3 = queue s2 \<and> inflight s3 = inflight s2 \<and>
       processingIds s3 = processingIds s2 \<and> trace s3 = trace s2"
  proof (intro allI)
    fix es d
    have "i \<notin> set (ids (queue (run es ?s1)))" using absent_run[OF n a] by simp
    then show "let s2 = run es ?s1; s3 = step (TIMER_FIRED d i) s2 in
       i \<notin> set (ids (getQueue s2)) \<and>
       queue s3 = queue s2 \<and> inflight s3 = inflight s2 \<and>
       processingIds s3 = processingIds s2 \<and> trace s3 = trace s2"
      unfolding Let_def getQueue_def using timer_absent[of i "run es ?s1" d] by blast
  qed
  have c: "\<forall>s'. i \<notin> set (ids (getQueue s')) \<or>
          (\<exists>q'. find (\<lambda>q. id_q q = i) (getQueue s') = Some q' \<and> status q' = Saving) \<longrightarrow>
          retryQueueItem i s' = s'"
    using retry_absent retry_saving by blast
  show ?thesis using a b c unfolding getQueue_def by blast
qed

text \<open>
  Claim C7 says that the discard of a failed entry removes it from the store, that a retry
  timer still pending for its id does nothing when it fires, and that a discarded entry is
  therefore never delivered again. The first two hold: \<^verbatim>\<open>retryQueueItem\<close> reads the store
  again before it acts. The loop of \<^verbatim>\<open>processPendingOnStartup\<close> does not: it calls
  \<^verbatim>\<open>processQueueItem\<close> on the items of the snapshot it took before its waits, and
  \<^verbatim>\<open>processQueueItem\<close> checks \<^verbatim>\<open>processingIds\<close> only. With a failed entry in the store,
  the loop takes its snapshot, the entry is discarded during the wait, and when the wait
  ends the request for the discarded entry is sent and its success is broadcast. The last
  line is the timer path on the same entry, where nothing is sent.
\<close>

theorem discarded_entry_is_replayed:
  "queue (run [PROCESS_PENDING, CLEAR_FAILED 1] (start_worker [sample_item 1 Failed] 2)) = [] \<and>
   trace (run [PROCESS_PENDING, CLEAR_FAILED 1] (start_worker [sample_item 1 Failed] 2)) = [] \<and>
   trace (run [PROCESS_PENDING, CLEAR_FAILED 1, STAGGER_ELAPSED 0,
               FETCH_SETTLED 1 (Resolved created_response)]
            (start_worker [sample_item 1 Failed] 2)) =
     [Waited 500, Post (sample_item 1 Failed),
      Publish (SAVE_RESULT \<lparr>success = True, snippetId = Some ''s1'', error = None,
                 originalText = ''The quick brown fox jumps'', queueId = Some 1\<rparr>),
      Publish (STATE_UPDATE \<lparr>pendingCount = 0, recentSaves = []\<rparr>)] \<and>
   trace (run [CLEAR_FAILED 0, TIMER_FIRED 1000 0, RETRY_FAILED 0] failed_with_timer) = []"
  by (simp add: worker_defs failed_with_timer_def)

section \<open>Retries and backoff\<close>

lemma find_distinct:
  assumes "distinct (ids xs)" "x \<in> set xs"
  shows "find (\<lambda>q. id_q q = id_q x) xs = Some x"
proof -
  have d: "distinct (map id_q xs)" using assms(1) by (simp add: ids_def)
  obtain y where y: "find (\<lambda>q. id_q q = id_q x) xs = Some y"
    using find_None_id[of "id_q x" xs] ids_mem[OF assms(2)]
    by (cases "find (\<lambda>q. id_q q = id_q x) xs") auto
  then have "y \<in> set xs" "id_q y = id_q x" using find_id[OF y] by simp_all
  then have "y = x" using d assms(2) by (meson distinct_map inj_onD)
  then show ?thesis using y by simp
qed

lemma on_failure_retry:
  assumes "isRetryableError e" "retryCount item < MAX_RETRIES"
  shows "on_failure item e s =
     (updateItemStatus (id_q item) Pending (Some (errorMessage e)) s)
       \<lparr>timers := timers s @ [(retry_delay (retryCount item), id_q item)]\<rparr>"
  using assms by (simp add: on_failure_def errorMessage_def Let_def)

lemma settle_retryable:
  assumes "guard_inv s" "item \<in> set (inflight s)" "q \<in> set (queue s)" "id_q q = id_q item"
    "response_result out = Inl e" "isRetryableError e" "retryCount item < MAX_RETRIES"
  shows "q\<lparr>status := Pending, lastError := Some (errorMessage e), retryCount := Suc (retryCount q)\<rparr>
           \<in> set (queue (step (FETCH_SETTLED (id_q item) out) s))"
    and "timers (step (FETCH_SETTLED (id_q item) out) s) =
           timers s @ [(retry_delay (retryCount item), id_q item)]"
    and "trace (step (FETCH_SETTLED (id_q item) out) s) = trace s"
    and "ids (queue (step (FETCH_SETTLED (id_q item) out) s)) = ids (queue s)"
    and "processingIds (step (FETCH_SETTLED (id_q item) out) s) = processingIds s - {id_q item}"
proof -
  let ?i = "id_q item"
  let ?s1 = "updateItemStatus ?i Pending (Some (errorMessage e)) s"
  have f: "find (\<lambda>q. id_q q = ?i) (inflight s) = Some item"
    by (rule find_inflight[OF assms(1,2)])
  note r = on_failure_retry[OF assms(6,7)]
  have qs: "queue (step (FETCH_SETTLED ?i out) s) = queue ?s1"
    using f assms(5) by (simp add: Let_def processQueueItem_end_def r)
  have "update_entry Pending (Some (errorMessage e)) q \<in> set (queue ?s1)"
    by (rule updateItemStatus_mem[OF assms(3,4)])
  moreover have "update_entry Pending (Some (errorMessage e)) q =
      q\<lparr>status := Pending, lastError := Some (errorMessage e), retryCount := Suc (retryCount q)\<rparr>"
    by (simp add: update_entry_def)
  ultimately show "q\<lparr>status := Pending, lastError := Some (errorMessage e), retryCount := Suc (retryCount q)\<rparr>
           \<in> set (queue (step (FETCH_SETTLED ?i out) s))"
    using qs by simp
  show "timers (step (FETCH_SETTLED ?i out) s) = timers s @ [(retry_delay (retryCount item), ?i)]"
    using f assms(5) by (simp add: Let_def processQueueItem_end_def r)
  show "trace (step (FETCH_SETTLED ?i out) s) = trace s"
    using f assms(5) by (simp add: Let_def processQueueItem_end_def r)
  show "ids (queue (step (FETCH_SETTLED ?i out) s)) = ids (queue s)"
    using qs by simp
  show "processingIds (step (FETCH_SETTLED ?i out) s) = processingIds s - {?i}"
    using f by (simp add: Let_def)
qed

lemma retry_delay_mono: "m \<le> n \<Longrightarrow> retry_delay m \<le> retry_delay n"
  by (simp add: retry_delay_def min_le_iff_disj power_increasing)

lemma retry_delay_capped: "retry_delay n \<le> MAX_RETRY_DELAY_MS"
  by (simp add: retry_delay_def)

lemma attempting_fails:
  assumes "attempting i k s" "response_result out = Inl e" "isRetryableError e" "k < MAX_RETRIES"
  shows "waiting i (Suc k) (step (FETCH_SETTLED i out) s)"
    and "(retry_delay k, i) \<in> set (timers (step (FETCH_SETTLED i out) s))"
    and "attempts i (step (FETCH_SETTLED i out) s) = attempts i s"
proof -
  obtain item q where g: "guard_inv s" and d: "distinct (ids (queue s))"
    and it: "item \<in> set (inflight s)" "id_q item = i" "retryCount item = k"
    and q: "q \<in> set (queue s)" "id_q q = i" "retryCount q = k"
    using assms(1) unfolding attempting_def by blast
  have qi: "id_q q = id_q item" using q(2) it(2) by simp
  have lt: "retryCount item < MAX_RETRIES" using assms(4) it(3) by simp
  note s = settle_retryable[OF g it(1) q(1) qi assms(2,3) lt, unfolded it(2) it(3)]
  let ?q' = "q\<lparr>status := Pending, lastError := Some (errorMessage e), retryCount := Suc (retryCount q)\<rparr>"
  have "id_q ?q' = i \<and> retryCount ?q' = Suc k \<and> status ?q' = Pending" using q by simp
  then have ex: "\<exists>q\<in>set (queue (step (FETCH_SETTLED i out) s)).
      id_q q = i \<and> retryCount q = Suc k \<and> status q = Pending"
    using s(1) by blast
  show "waiting i (Suc k) (step (FETCH_SETTLED i out) s)"
    unfolding waiting_def
    using guard_inv_step[OF g, of "FETCH_SETTLED i out"] d ex s(4,5)
    by (simp del: step.simps)
  show "(retry_delay k, i) \<in> set (timers (step (FETCH_SETTLED i out) s))"
    using s(2) by simp
  show "attempts i (step (FETCH_SETTLED i out) s) = attempts i s"
    using s(3) by (simp add: attempts_def)
qed

lemma waiting_timer:
  assumes "waiting i k s" "(d, i) \<in> set (timers s)"
  shows "attempting i k (step (TIMER_FIRED d i) s)"
    and "attempts i (step (TIMER_FIRED d i) s) = Suc (attempts i s)"
proof -
  let ?t = "s\<lparr>timers := remove1 (d, i) (timers s)\<rparr>"
  obtain q where g: "guard_inv s" and ds: "distinct (ids (queue s))" and n: "i \<notin> processingIds s"
    and q: "q \<in> set (queue s)" "id_q q = i" "retryCount q = k" "status q = Pending"
    using assms(1) unfolding waiting_def by blast
  have f: "find (\<lambda>q. id_q q = i) (queue s) = Some q"
    using find_distinct[OF ds q(1)] q(2) by simp
  have st: "step (TIMER_FIRED d i) s = processQueueItem_begin q ?t"
    using assms(2) f q(4) by (simp add: retryQueueItem_def getQueue_def)
  have n': "id_q q \<notin> processingIds ?t" using n q(2) by simp
  note b = begin_go[OF n']
  have "update_entry Saving None q \<in> set (queue (updateItemStatus (id_q q) Saving None ?t))"
    by (rule updateItemStatus_mem) (simp_all add: q(1))
  moreover have "id_q (update_entry Saving None q) = i \<and> retryCount (update_entry Saving None q) = k
      \<and> status (update_entry Saving None q) = Saving"
    using q by (simp add: update_entry_def)
  ultimately have ex: "\<exists>q\<in>set (queue (step (TIMER_FIRED d i) s)).
      id_q q = i \<and> retryCount q = k \<and> status q = Saving"
    unfolding st b(4) by blast
  have ex2: "\<exists>item\<in>set (inflight (step (TIMER_FIRED d i) s)). id_q item = i \<and> retryCount item = k"
    unfolding st b(2) using q by simp
  have dq: "distinct (ids (queue (step (TIMER_FIRED d i) s)))"
    unfolding st using ds by simp
  show "attempting i k (step (TIMER_FIRED d i) s)"
    unfolding attempting_def
    using guard_inv_step[OF g, of "TIMER_FIRED d i"] dq ex ex2 by blast
  show "attempts i (step (TIMER_FIRED d i) s) = Suc (attempts i s)"
    unfolding st attempts_def b(3) using q(2) by (simp add: is_post_for_def)
qed

lemma attempting_exhausted:
  assumes "attempting i k s" "response_result out = Inl e" "MAX_RETRIES \<le> k"
  shows "\<exists>q\<in>set (queue (step (FETCH_SETTLED i out) s)).
           id_q q = i \<and> retryCount q = k \<and> status q = Failed"
    and "attempts i (step (FETCH_SETTLED i out) s) = attempts i s"
proof -
  obtain item q where g: "guard_inv s"
    and it: "item \<in> set (inflight s)" "id_q item = i" "retryCount item = k"
    and q: "q \<in> set (queue s)" "id_q q = i" "retryCount q = k"
    using assms(1) unfolding attempting_def by blast
  have f: "find (\<lambda>q. id_q q = i) (inflight s) = Some item"
    using find_inflight[OF g it(1)] it(2) by simp
  have x: "\<not> isRetryableError e \<or> MAX_RETRIES \<le> retryCount item" using assms(3) it(3) by simp
  let ?s1 = "updateItemStatus i Failed (Some (errorMessage e)) s"
  have qs: "queue (step (FETCH_SETTLED i out) s) = queue ?s1"
    using f assms(2) it(2) by (simp add: Let_def processQueueItem_end_def on_failure_final[OF x])
  have "update_entry Failed (Some (errorMessage e)) q \<in> set (queue ?s1)"
    by (rule updateItemStatus_mem[OF q(1,2)])
  moreover have "id_q (update_entry Failed (Some (errorMessage e)) q) = i \<and>
      retryCount (update_entry Failed (Some (errorMessage e)) q) = k \<and>
      status (update_entry Failed (Some (errorMessage e)) q) = Failed"
    using q by (simp add: update_entry_def)
  ultimately show "\<exists>q\<in>set (queue (step (FETCH_SETTLED i out) s)).
           id_q q = i \<and> retryCount q = k \<and> status q = Failed"
    unfolding qs by blast
  have "trace (step (FETCH_SETTLED i out) s) = trace s @
      [Publish (SAVE_RESULT \<lparr>success = False, snippetId = None, error = Some (errorMessage e),
                  originalText = text_p (payload item), queueId = Some i\<rparr>),
       Publish (STATE_UPDATE (handleSyncState (broadcastMessage (SAVE_RESULT
          \<lparr>success = False, snippetId = None, error = Some (errorMessage e),
                  originalText = text_p (payload item), queueId = Some i\<rparr>) ?s1)))]"
    using f assms(2) it(2) by (simp add: Let_def processQueueItem_end_def on_failure_final[OF x])
  then show "attempts i (step (FETCH_SETTLED i out) s) = attempts i s"
    by (simp add: attempts_def is_post_for_def)
qed


lemma run_append: "run (es @ fs) s = run fs (run es s)"
  by (induction es arbitrary: s) simp_all

lemma retry_rounds_run:
  assumes "response_result out = Inl e" "isRetryableError e"
  shows "attempting i k s \<Longrightarrow> k + n \<le> MAX_RETRIES \<Longrightarrow>
         attempting i (k + n) (run (retry_rounds i out k n) s) \<and>
         attempts i (run (retry_rounds i out k n) s) = attempts i s + n"
proof (induction n arbitrary: k s)
  case 0
  then show ?case by simp
next
  case (Suc n)
  let ?s1 = "step (FETCH_SETTLED i out) s"
  let ?s2 = "step (TIMER_FIRED (retry_delay k) i) ?s1"
  have k: "k < MAX_RETRIES" using Suc.prems(2) by simp
  note f = attempting_fails[OF Suc.prems(1) assms k]
  note t = waiting_timer[OF f(1,2)]
  have "Suc k + n \<le> MAX_RETRIES" using Suc.prems(2) by simp
  then have "attempting i (Suc k + n) (run (retry_rounds i out (Suc k) n) ?s2) \<and>
         attempts i (run (retry_rounds i out (Suc k) n) ?s2) = attempts i ?s2 + n"
    by (rule Suc.IH[OF t(1)])
  then show ?case using t(2) f(3) by simp
qed

lemma attempts_fresh:
  assumes "fresh_inv s"
  shows "attempts (nextId s) s = 0"
proof -
  have "\<And>e. trace_id_ok (nextId s) e \<Longrightarrow> \<not> is_post_for (nextId s) e"
    by (auto simp: trace_id_ok_def is_post_for_def split: effect.splits)
  then have "filter (is_post_for (nextId s)) (trace s) = []"
    using assms unfolding fresh_inv_def by (simp add: filter_empty_conv)
  then show ?thesis by (simp add: attempts_def)
qed

lemma submit_attempting:
  assumes "wf s" "MIN_SELECTION_LENGTH \<le> length (text_p p)"
    "length (text_p p) \<le> MAX_SELECTION_LENGTH" "length (getQueue s) < MAX_QUEUE_SIZE"
  shows "attempting (nextId s) 0 (step (SAVE_SNIPPET p False now) s)"
    and "attempts (nextId s) (step (SAVE_SNIPPET p False now) s) = 1"
proof -
  let ?s1 = "step (SAVE_SNIPPET p False now) s"
  obtain item where i: "id_q item = nextId s" "retryCount item = 0"
    and f: "item \<in> set (inflight ?s1)" and t: "trace ?s1 = trace s @ [Post item]"
    and q: "\<exists>q\<in>set (queue ?s1). id_q q = nextId s \<and> retryCount q = 0 \<and> status q = Saving \<and> payload q = p"
    using submit_accepted[OF assms, of now] by metis
  have w: "wf ?s1" by (rule wf_step[OF assms(1)])
  then have g: "guard_inv ?s1" and d: "distinct (ids (queue ?s1))"
    unfolding wf_def fresh_inv_def by simp_all
  show "attempting (nextId s) 0 ?s1"
    unfolding attempting_def using g d f i q by blast
  have "attempts (nextId s) s = 0" using attempts_fresh assms(1) unfolding wf_def by simp
  then show "attempts (nextId s) ?s1 = 1"
    unfolding attempts_def t using i(1) by (simp add: is_post_for_def)
qed

lemma show_nat_5xx:
  assumes "500 \<le> n" "n \<le> 599"
  shows "show_nat n = CHR ''5'' # [digit (n div 10 mod 10), digit (n mod 10)]"
proof -
  have a: "\<not> n < 10" "\<not> n div 10 < 10" "n div 10 div 10 = 5" using assms by auto
  have "show_nat n = show_nat (n div 10) @ [digit (n mod 10)]"
    using a(1) by (subst show_nat.simps) simp
  also have "show_nat (n div 10) = show_nat (n div 10 div 10) @ [digit (n div 10 mod 10)]"
    using a(2) by (subst show_nat.simps) simp
  also have "show_nat (n div 10 div 10) = [digit 5]"
    unfolding a(3) by (subst show_nat.simps) simp
  finally show ?thesis by (simp add: digit_def)
qed

lemma includes_empty: "includes_str xs []"
  by (cases xs) simp_all

lemma includes_prefix: "includes_str (sub @ rest) sub"
  by (cases sub) (simp_all add: includes_empty)

lemma server_error_without_text_retryable:
  assumes "500 \<le> httpStatus r" "httpStatus r \<le> 599" "json r = Inr b"
    "error_j b = None \<or> error_j b = Some []"
  shows "response_result (Resolved r) = Inl (ErrorObj ''Error'' (''HTTP '' @ show_nat (httpStatus r)))"
    and "isRetryableError (ErrorObj ''Error'' (''HTTP '' @ show_nat (httpStatus r)))"
proof -
  have "\<not> ok r" using assms(1) by (simp add: ok_def)
  then show "response_result (Resolved r) = Inl (ErrorObj ''Error'' (''HTTP '' @ show_nat (httpStatus r)))"
    using assms(3,4) by (auto simp: response_result_def)
  have "''HTTP '' @ show_nat (httpStatus r) =
      ''HTTP 5'' @ [digit (httpStatus r div 10 mod 10), digit (httpStatus r mod 10)]"
    by (simp add: show_nat_5xx[OF assms(1,2)])
  then have "includes_str (''HTTP '' @ show_nat (httpStatus r)) ''HTTP 5''"
    using includes_prefix[of "''HTTP 5''"] by simp
  then show "isRetryableError (ErrorObj ''Error'' (''HTTP '' @ show_nat (httpStatus r)))"
    by (simp add: isRetryableError_def)
qed

lemma abort_retryable: "isRetryableError (ErrorObj ''AbortError'' msg)"
  by (simp add: isRetryableError_def)

lemma bare_server_error_result:
  "response_result (Resolved bare_server_error) = Inl (ErrorObj ''Error'' ''HTTP 500'')"
  "isRetryableError (ErrorObj ''Error'' ''HTTP 500'')"
proof -
  have h: "500 \<le> httpStatus bare_server_error" "httpStatus bare_server_error \<le> 599"
    "json bare_server_error = Inr \<lparr>error_j = None, id_j = None\<rparr>"
    "error_j \<lparr>error_j = None, id_j = None\<rparr> = None \<or> error_j \<lparr>error_j = None, id_j = None\<rparr> = Some []"
    by (simp_all add: bare_server_error_def)
  have n: "''HTTP '' @ show_nat (httpStatus bare_server_error) = ''HTTP 500''"
    by (simp add: show_nat_5xx bare_server_error_def digit_def)
  show "response_result (Resolved bare_server_error) = Inl (ErrorObj ''Error'' ''HTTP 500'')"
    "isRetryableError (ErrorObj ''Error'' ''HTTP 500'')"
    using server_error_without_text_retryable[OF h] unfolding n by simp_all
qed

text \<open>
  The retry transition. When the request of an attempt settles with a failure that
  \<^verbatim>\<open>isRetryableError\<close> accepts and the item of the attempt has fewer than
  \<^verbatim>\<open>MAX_RETRIES\<close> retries, the entry of the store returns to pending with its retry count
  raised by one, a retry timer for the id is set with the delay
  \<open>min (INITIAL_RETRY_DELAY_MS * 2 ^ retryCount) MAX_RETRY_DELAY_MS\<close> of the item's count, and
  nothing is broadcast. The delay does not decrease in the count and never exceeds
  \<^verbatim>\<open>MAX_RETRY_DELAY_MS\<close>. When every attempt is started by the retry timer of the one
  before, a write that keeps failing in this way is attempted \<open>1 + MAX_RETRIES\<close> times.
\<close>

lemma retry_transition_and_backoff:
  assumes "guard_inv s" and "item \<in> set (inflight s)"
    and "q \<in> set (queue s)" and "id_q q = id_q item"
    and "response_result out = Inl e" and "isRetryableError e"
    and "retryCount item < MAX_RETRIES"
  shows "(let s' = step (FETCH_SETTLED (id_q item) out) s in
      q\<lparr>status := Pending, lastError := Some (errorMessage e), retryCount := Suc (retryCount q)\<rparr>
        \<in> set (queue s') \<and>
      timers s' = timers s @
        [(min (INITIAL_RETRY_DELAY_MS * 2 ^ retryCount item) MAX_RETRY_DELAY_MS, id_q item)] \<and>
      trace s' = trace s) \<and>
    (\<forall>m n. m \<le> n \<longrightarrow> retry_delay m \<le> retry_delay n \<and> retry_delay n \<le> MAX_RETRY_DELAY_MS) \<and>
    (\<forall>s0 p now.
       wf s0 \<and> MIN_SELECTION_LENGTH \<le> length (text_p p) \<and>
       length (text_p p) \<le> MAX_SELECTION_LENGTH \<and> length (getQueue s0) < MAX_QUEUE_SIZE \<longrightarrow>
       (let i = nextId s0;
            s1 = step (SAVE_SNIPPET p False now) s0;
            s2 = run (retry_rounds i out 0 MAX_RETRIES) s1;
            s3 = step (FETCH_SETTLED i out) s2
        in attempts i s2 = 1 + MAX_RETRIES \<and>
           (\<exists>q\<in>set (queue s2). id_q q = i \<and> retryCount q = MAX_RETRIES \<and> status q = Saving) \<and>
           attempts i s3 = 1 + MAX_RETRIES \<and>
           (\<exists>q\<in>set (queue s3). id_q q = i \<and> retryCount q = MAX_RETRIES \<and> status q = Failed)))"
proof -
  note s = settle_retryable[OF assms]
  have a: "let s' = step (FETCH_SETTLED (id_q item) out) s in
      q\<lparr>status := Pending, lastError := Some (errorMessage e), retryCount := Suc (retryCount q)\<rparr>
        \<in> set (queue s') \<and>
      timers s' = timers s @
        [(min (INITIAL_RETRY_DELAY_MS * 2 ^ retryCount item) MAX_RETRY_DELAY_MS, id_q item)] \<and>
      trace s' = trace s"
    unfolding Let_def using s(1,2,3) by (simp add: retry_delay_def del: step.simps)
  have b: "\<forall>m n. m \<le> n \<longrightarrow> retry_delay m \<le> retry_delay n \<and> retry_delay n \<le> MAX_RETRY_DELAY_MS"
    using retry_delay_mono retry_delay_capped by blast
  have c: "\<forall>s0 p now.
       wf s0 \<and> MIN_SELECTION_LENGTH \<le> length (text_p p) \<and>
       length (text_p p) \<le> MAX_SELECTION_LENGTH \<and> length (getQueue s0) < MAX_QUEUE_SIZE \<longrightarrow>
       (let i = nextId s0;
            s1 = step (SAVE_SNIPPET p False now) s0;
            s2 = run (retry_rounds i out 0 MAX_RETRIES) s1;
            s3 = step (FETCH_SETTLED i out) s2
        in attempts i s2 = 1 + MAX_RETRIES \<and>
           (\<exists>q\<in>set (queue s2). id_q q = i \<and> retryCount q = MAX_RETRIES \<and> status q = Saving) \<and>
           attempts i s3 = 1 + MAX_RETRIES \<and>
           (\<exists>q\<in>set (queue s3). id_q q = i \<and> retryCount q = MAX_RETRIES \<and> status q = Failed))"
  proof (intro allI impI, elim conjE)
    fix s0 :: worker and p :: SnippetPayload and now :: nat
    assume h: "wf s0" "MIN_SELECTION_LENGTH \<le> length (text_p p)"
      "length (text_p p) \<le> MAX_SELECTION_LENGTH" "length (getQueue s0) < MAX_QUEUE_SIZE"
    let ?i = "nextId s0"
    let ?s1 = "step (SAVE_SNIPPET p False now) s0"
    let ?s2 = "run (retry_rounds ?i out 0 MAX_RETRIES) ?s1"
    let ?s3 = "step (FETCH_SETTLED ?i out) ?s2"
    note sa = submit_attempting[OF h, of now]
    have r: "attempting ?i (0 + MAX_RETRIES) ?s2 \<and> attempts ?i ?s2 = attempts ?i ?s1 + MAX_RETRIES"
      by (rule retry_rounds_run[OF assms(5,6) sa(1)]) simp
    then have at: "attempting ?i MAX_RETRIES ?s2" and n2: "attempts ?i ?s2 = 1 + MAX_RETRIES"
      using sa(2) by simp_all
    have q2: "\<exists>q\<in>set (queue ?s2). id_q q = ?i \<and> retryCount q = MAX_RETRIES \<and> status q = Saving"
      using at unfolding attempting_def by blast
    note x = attempting_exhausted[OF at assms(5) order_refl]
    show "let i = nextId s0;
            s1 = step (SAVE_SNIPPET p False now) s0;
            s2 = run (retry_rounds i out 0 MAX_RETRIES) s1;
            s3 = step (FETCH_SETTLED i out) s2
        in attempts i s2 = 1 + MAX_RETRIES \<and>
           (\<exists>q\<in>set (queue s2). id_q q = i \<and> retryCount q = MAX_RETRIES \<and> status q = Saving) \<and>
           attempts i s3 = 1 + MAX_RETRIES \<and>
           (\<exists>q\<in>set (queue s3). id_q q = i \<and> retryCount q = MAX_RETRIES \<and> status q = Failed)"
      unfolding Let_def using n2 q2 x by (simp del: step.simps)
  qed
  show ?thesis using a b c by blast
qed

text \<open>
  Claim C3 says that every retryable failure of an entry below \<^verbatim>\<open>MAX_RETRIES\<close> raises its
  retry count, returns it to pending and schedules the next attempt with the backoff delay,
  that successive delays do not decrease, and that a remote write that keeps returning 500
  is retried \<^verbatim>\<open>MAX_RETRIES\<close> times before the entry becomes failed. The worker does this
  only for the failures \<^verbatim>\<open>isRetryableError\<close> accepts, and that function reads the text of
  the message, not the status. A submit whose remote write keeps returning status 500 with the
  body \<^verbatim>\<open>{"error": "Internal Server Error"}\<close> is attempted once: the first failure makes
  the entry failed with a retry count of 0, no timer is set, and the timer and settle
  events of the three retry rounds find nothing to do.
\<close>

theorem server_error_with_body_one_attempt:
  "retry_rounds 0 (Resolved server_error_response) 0 MAX_RETRIES =
     [FETCH_SETTLED 0 (Resolved server_error_response), TIMER_FIRED 1000 0,
      FETCH_SETTLED 0 (Resolved server_error_response), TIMER_FIRED 2000 0,
      FETCH_SETTLED 0 (Resolved server_error_response), TIMER_FIRED 4000 0] \<and>
   attempts 0 (run (SAVE_SNIPPET sample_payload False 0 #
                    retry_rounds 0 (Resolved server_error_response) 0 MAX_RETRIES @
                    [FETCH_SETTLED 0 (Resolved server_error_response)]) (start_worker [] 0)) = 1 \<and>
   map (\<lambda>q. (id_q q, retryCount q, status q))
     (queue (run (SAVE_SNIPPET sample_payload False 0 #
                    retry_rounds 0 (Resolved server_error_response) 0 MAX_RETRIES @
                    [FETCH_SETTLED 0 (Resolved server_error_response)]) (start_worker [] 0))) =
     [(0, 0, Failed)] \<and>
   timers (run (SAVE_SNIPPET sample_payload False 0 #
                    retry_rounds 0 (Resolved server_error_response) 0 MAX_RETRIES @
                    [FETCH_SETTLED 0 (Resolved server_error_response)]) (start_worker [] 0)) = []"
  by (simp add: worker_defs numeral_3_eq_3 includes_eval attempts_def is_post_for_def)

text \<open>
  The bound on the retries and the order of the delays also fail when an attempt is started
  by a replay loop with an item of an older snapshot, since \<^verbatim>\<open>processQueueItem\<close> compares
  and computes with the retry count of the item it was called with. Here the write keeps
  returning 500 without an error text, so every failure is classified as retryable. The
  loop takes its snapshot after the first failure and its wait ends after the third: the
  entry is attempted six times, the delays set are 1000, 2000, 4000 and then 2000, and the
  entry ends failed with a retry count of 4.
\<close>

lemma show_nat_500: "show_nat 500 = ''500''"
  by (simp add: show_nat_5xx digit_def)

lemma includes_http_500:
  "\<not> includes_str ''HTTP 500'' ''network''" "includes_str ''HTTP 500'' ''HTTP 5''"
  by simp_all

lemma stale_replay_item_restarts_budget:
  "attempts 0 (run stale_replay_events (start_worker [] 0)) = 6 \<and>
   map (\<lambda>q. (id_q q, retryCount q, status q)) (queue (run stale_replay_events (start_worker [] 0))) =
     [(0, 4, Failed)] \<and>
   map (\<lambda>k. timers (run (take k stale_replay_events) (start_worker [] 0))) [2, 5, 7, 9] =
     [[(1000, 0)], [(2000, 0)], [(4000, 0)], [(4000, 0), (2000, 0)]]"
  by (simp add: stale_replay_events_def worker_defs show_nat_500 includes_http_500
      attempts_def is_post_for_def)

section \<open>Replay on startup\<close>

lemma requests_append [simp]: "requests (xs @ ys) = requests xs @ requests ys"
  by (simp add: requests_def)

lemma requests_end [simp]:
  "requests (trace (processQueueItem_end item out s)) = requests (trace s)"
  using end_trace_cases[of item out s]
proof (elim disjE exE)
  fix b assume "trace (processQueueItem_end item out s) = trace (on_success item b s)"
  then show ?thesis by (simp add: trace_on_success requests_def is_request_def)
next
  fix e assume t: "trace (processQueueItem_end item out s) = trace (on_failure item e s)"
  show ?thesis using trace_on_failure_cases[of item e s] t
    by (elim disjE exE) (simp_all add: requests_def is_request_def)
qed

lemma replay_round:
  assumes "replays s = [\<lparr>remaining = item # rest, awaiting = None\<rparr>]"
    "processingIds s = {}" "inflight s = []"
  shows "length (inflight (step (FETCH_SETTLED (id_q item) out) (step (STAGGER_ELAPSED 0) s)))
           \<le> length (inflight (step (STAGGER_ELAPSED 0) s)) \<and>
         inflight (step (STAGGER_ELAPSED 0) s) = [item]"
    and "replays (step (FETCH_SETTLED (id_q item) out) (step (STAGGER_ELAPSED 0) s)) =
           [\<lparr>remaining = rest, awaiting = None\<rparr>]"
    and "processingIds (step (FETCH_SETTLED (id_q item) out) (step (STAGGER_ELAPSED 0) s)) = {}"
    and "inflight (step (FETCH_SETTLED (id_q item) out) (step (STAGGER_ELAPSED 0) s)) = []"
    and "requests (trace (step (FETCH_SETTLED (id_q item) out) (step (STAGGER_ELAPSED 0) s))) =
           requests (trace s) @ [Waited STAGGER_DELAY_MS, Post item]"
proof -
  let ?w = "s\<lparr>trace := trace s @ [Waited STAGGER_DELAY_MS]\<rparr>"
  let ?s1 = "step (STAGGER_ELAPSED 0) s"
  have n: "id_q item \<notin> processingIds ?w" using assms(2) by simp
  note b = begin_go[OF n]
  have s1: "?s1 = (processQueueItem_begin item ?w)
      \<lparr>replays := [\<lparr>remaining = rest, awaiting = Some (id_q item)\<rparr>]\<rparr>"
    using assms(1,2) by (simp add: replay_next_def Let_def)
  have i1: "inflight ?s1 = [item]" unfolding s1 using b(2) assms(3) by simp
  have p1: "processingIds ?s1 = {id_q item}" unfolding s1 using b(1) assms(2) by simp
  have t1: "trace ?s1 = trace s @ [Waited STAGGER_DELAY_MS, Post item]"
    unfolding s1 using b(3) by simp
  have r1: "replays ?s1 = [\<lparr>remaining = rest, awaiting = Some (id_q item)\<rparr>]"
    unfolding s1 by simp
  have f: "find (\<lambda>q. id_q q = id_q item) (inflight ?s1) = Some item"
    unfolding i1 by simp
  have s2: "step (FETCH_SETTLED (id_q item) out) ?s1 =
      (processQueueItem_end item out ?s1)\<lparr>replays := map (resume (id_q item)) (replays ?s1)\<rparr>"
    using f by (simp add: Let_def del: step.simps(8))
  show "replays (step (FETCH_SETTLED (id_q item) out) ?s1) = [\<lparr>remaining = rest, awaiting = None\<rparr>]"
    unfolding s2 by (simp add: r1 resume_def del: step.simps)
  show "processingIds (step (FETCH_SETTLED (id_q item) out) ?s1) = {}"
    unfolding s2 by (simp add: p1 del: step.simps)
  show i2: "inflight (step (FETCH_SETTLED (id_q item) out) ?s1) = []"
    unfolding s2 by (simp add: i1 del: step.simps)
  show "length (inflight (step (FETCH_SETTLED (id_q item) out) ?s1)) \<le> length (inflight ?s1) \<and>
         inflight ?s1 = [item]"
    unfolding i2 using i1 by simp
  have "requests (trace (processQueueItem_end item out ?s1)) = requests (trace ?s1)"
    by (rule requests_end)
  also have "\<dots> = requests (trace s) @ [Waited STAGGER_DELAY_MS, Post item]"
    unfolding t1 by (simp add: requests_def is_request_def)
  finally show "requests (trace (step (FETCH_SETTLED (id_q item) out) ?s1)) =
           requests (trace s) @ [Waited STAGGER_DELAY_MS, Post item]"
    unfolding s2 by (simp del: step.simps)
qed

lemma replay_run:
  "replays s = [\<lparr>remaining = items, awaiting = None\<rparr>] \<Longrightarrow>
   processingIds s = {} \<Longrightarrow> inflight s = [] \<Longrightarrow> length outs = length items \<Longrightarrow>
   requests (trace (run (replay_events items outs) s)) = requests (trace s) @ staggered items \<and>
   inflight (run (replay_events items outs) s) = [] \<and>
   processingIds (run (replay_events items outs) s) = {} \<and>
   (\<forall>k. length (inflight (run (take k (replay_events items outs)) s)) \<le> 1)"
proof (induction items arbitrary: outs s)
  case Nil
  then show ?case by (simp add: staggered_def)
next
  case (Cons item rest)
  then obtain out outs' where o: "outs = out # outs'" "length outs' = length rest"
    by (cases outs) simp_all
  let ?s1 = "step (STAGGER_ELAPSED 0) s"
  let ?s2 = "step (FETCH_SETTLED (id_q item) out) ?s1"
  note r = replay_round[OF Cons.prems(1,2,3), of out]
  note ih = Cons.IH[OF r(2,3,4) o(2)]
  have e: "replay_events (item # rest) outs =
      STAGGER_ELAPSED 0 # FETCH_SETTLED (id_q item) out # replay_events rest outs'"
    using o(1) by simp
  have a: "requests (trace (run (replay_events (item # rest) outs) s)) =
      requests (trace s) @ staggered (item # rest)"
    unfolding e using ih r(5) by (simp add: staggered_def del: step.simps)
  have b: "inflight (run (replay_events (item # rest) outs) s) = []"
    "processingIds (run (replay_events (item # rest) outs) s) = {}"
    unfolding e using ih by (simp_all del: step.simps)
  have c: "\<forall>k. length (inflight (run (take k (replay_events (item # rest) outs)) s)) \<le> 1"
  proof
    fix k
    show "length (inflight (run (take k (replay_events (item # rest) outs)) s)) \<le> 1"
    proof (cases k)
      case 0
      then show ?thesis using Cons.prems(3) by simp
    next
      case (Suc k1)
      show ?thesis
      proof (cases k1)
        case 0
        then show ?thesis unfolding e \<open>k = Suc k1\<close> using r(1) by (simp del: step.simps)
      next
        case (Suc k2)
        then show ?thesis unfolding e \<open>k = Suc k1\<close> using ih by (simp del: step.simps)
      qed
    qed
  qed
  show ?case using a b c by blast
qed


lemma attempts_requests: "attempts i s = length (filter (is_post_for i) (requests (trace s)))"
proof -
  have "\<And>e. (is_request e \<and> is_post_for i e) = is_post_for i e"
    by (auto simp: is_request_def is_post_for_def split: effect.splits)
  then show ?thesis by (simp add: attempts_def requests_def)
qed

lemma posts_staggered:
  "length (filter (is_post_for i) (staggered xs)) = length (filter (\<lambda>q. id_q q = i) xs)"
  by (induction xs) (simp_all add: staggered_def is_post_for_def)

lemma filter_same_id:
  "distinct (ids xs) \<Longrightarrow> x \<in> set xs \<Longrightarrow> filter (\<lambda>q. id_q q = id_q x) xs = [x]"
proof (induction xs)
  case Nil
  then show ?case by simp
next
  case (Cons a xs)
  show ?case
  proof (cases "x = a")
    case True
    have "\<forall>q\<in>set xs. id_q q \<noteq> id_q a" using Cons.prems(1) ids_mem by fastforce
    then have "filter (\<lambda>q. id_q q = id_q a) xs = []" by (simp add: filter_empty_conv)
    then show ?thesis using True by simp
  next
    case False
    then have x: "x \<in> set xs" using Cons.prems(2) by simp
    then have "id_q a \<noteq> id_q x" using Cons.prems(1) ids_mem[OF x] by auto
    then show ?thesis using Cons.IH x Cons.prems(1) by simp
  qed
qed

text \<open>
  Claim C9. A worker that starts on a persisted queue calls
  \<^verbatim>\<open>processPendingOnStartup\<close>. When each attempt of the loop settles before anything else
  happens, the loop takes the entries whose status is pending or failed, in the order of
  the queue, and for each of them waits \<^verbatim>\<open>STAGGER_DELAY_MS\<close> and then sends one request:
  the waits and requests of the trace are exactly these, so with distinct ids every pending
  or failed entry is attempted exactly once and no other entry is attempted. At every point
  of the run at most one attempt is under way, and the attempts under way have different
  ids; at the end none is.
\<close>

theorem startup_replay:
  assumes "length outs = length (getPendingItems (start_worker q n))"
  shows "let s0 = start_worker q n;
             pend = getPendingItems s0;
             evs = PROCESS_PENDING # replay_events pend outs;
             s = run evs s0
         in pend = filter (\<lambda>item. status item = Pending \<or> status item = Failed) q \<and>
            requests (trace s) = concat (map (\<lambda>item. [Waited STAGGER_DELAY_MS, Post item]) pend) \<and>
            inflight s = [] \<and> processingIds s = {} \<and>
            (\<forall>k. length (inflight (run (take k evs) s0)) \<le> 1 \<and>
                 distinct (ids (inflight (run (take k evs) s0)))) \<and>
            (distinct (ids q) \<longrightarrow>
               (\<forall>item\<in>set q. attempts (id_q item) s =
                  (if status item = Pending \<or> status item = Failed then 1 else 0)))"
proof -
  let ?first = "start_worker q n"
  let ?pend = "getPendingItems ?first"
  let ?P = "\<lambda>item. status item = Pending \<or> status item = Failed"
  let ?evs = "PROCESS_PENDING # replay_events ?pend outs"
  let ?second = "step PROCESS_PENDING ?first"
  let ?final = "run ?evs ?first"
  have p: "?pend = filter ?P q" by (simp add: getPendingItems_def start_worker_def)
  have i: "replays ?second = [\<lparr>remaining = ?pend, awaiting = None\<rparr>]"
    "processingIds ?second = {}" "inflight ?second = []" "trace ?second = []" "inflight ?first = []"
    by (simp_all add: start_worker_def)
  note r = replay_run[OF i(1,2,3) assms]
  have rs: "?final = run (replay_events ?pend outs) ?second" by simp
  have a: "requests (trace ?final) = concat (map (\<lambda>item. [Waited STAGGER_DELAY_MS, Post item]) ?pend)"
    unfolding rs using r i(4) by (simp add: staggered_def requests_def)
  have b: "inflight ?final = []" "processingIds ?final = {}" unfolding rs using r by simp_all
  have c: "\<forall>k. length (inflight (run (take k ?evs) ?first)) \<le> 1 \<and>
                 distinct (ids (inflight (run (take k ?evs) ?first)))"
  proof
    fix k
    have "length (inflight (run (take k ?evs) ?first)) \<le> 1"
    proof (cases k)
      case 0
      then show ?thesis using i(5) by simp
    next
      case (Suc k')
      then show ?thesis using r by (simp del: step.simps)
    qed
    moreover have "distinct (ids (inflight (run (take k ?evs) ?first)))"
      using guard_inv_run[OF guard_inv_start, of "take k ?evs" q n] by (simp add: guard_inv_def)
    ultimately show "length (inflight (run (take k ?evs) ?first)) \<le> 1 \<and>
                 distinct (ids (inflight (run (take k ?evs) ?first)))" by simp
  qed
  have d: "distinct (ids q) \<longrightarrow>
               (\<forall>item\<in>set q. attempts (id_q item) ?final =
                  (if status item = Pending \<or> status item = Failed then 1 else 0))"
  proof (intro impI ballI)
    fix item assume dq: "distinct (ids q)" and m: "item \<in> set q"
    have "attempts (id_q item) ?final = length (filter (\<lambda>x. id_q x = id_q item) ?pend)"
      unfolding attempts_requests a using posts_staggered[of "id_q item" ?pend]
      by (simp add: staggered_def)
    also have "filter (\<lambda>x. id_q x = id_q item) ?pend = filter ?P (filter (\<lambda>x. id_q x = id_q item) q)"
      unfolding p by (simp add: conj_commute)
    also have "\<dots> = filter ?P [item]" using filter_same_id[OF dq m] by simp
    finally show "attempts (id_q item) ?final =
                  (if status item = Pending \<or> status item = Failed then 1 else 0)"
      by simp
  qed
  show ?thesis unfolding Let_def using p a b c d by blast
qed

theorem startup_replay_witness:
  "length [Resolved created_response, Resolved server_error_response] =
     length (getPendingItems (start_worker leftover_queue 3)) \<and>
   distinct (ids leftover_queue) \<and>
   sample_item 1 Saving \<in> set leftover_queue \<and> sample_item 2 Pending \<in> set leftover_queue \<and>
   requests (trace (run (PROCESS_PENDING # replay_events (getPendingItems (start_worker leftover_queue 3))
        [Resolved created_response, Resolved server_error_response]) (start_worker leftover_queue 3))) =
     [Waited 500, Post (sample_item 0 Failed), Waited 500, Post (sample_item 2 Pending)] \<and>
   attempts 1 (run (PROCESS_PENDING # replay_events (getPendingItems (start_worker leftover_queue 3))
        [Resolved created_response, Resolved server_error_response]) (start_worker leftover_queue 3)) = 0 \<and>
   attempts 2 (run (PROCESS_PENDING # replay_events (getPendingItems (start_worker leftover_queue 3))
        [Resolved created_response, Resolved server_error_response]) (start_worker leftover_queue 3)) = 1"
proof -
  have p: "getPendingItems (start_worker leftover_queue 3) = [sample_item 0 Failed, sample_item 2 Pending]"
    by (simp add: getPendingItems_def start_worker_def leftover_queue_def sample_item_def)
  have h: "length [Resolved created_response, Resolved server_error_response] =
     length (getPendingItems (start_worker leftover_queue 3))"
    unfolding p by simp
  have d: "distinct (ids leftover_queue)"
    "sample_item 1 Saving \<in> set leftover_queue" "sample_item 2 Pending \<in> set leftover_queue"
    by (simp_all add: leftover_queue_def sample_item_def)
  note t = startup_replay [OF h, unfolded Let_def]
  note t2 = t [THEN conjunct2, THEN conjunct1]
  note t6 = t [THEN conjunct2, THEN conjunct2, THEN conjunct2, THEN conjunct2, THEN conjunct2,
      THEN mp, OF d(1)]
  have a1: "attempts 1 (run (PROCESS_PENDING # replay_events (getPendingItems (start_worker leftover_queue 3))
        [Resolved created_response, Resolved server_error_response]) (start_worker leftover_queue 3)) = 0"
    using t6 [THEN bspec, OF d(2)] by (simp add: sample_item_def del: step.simps run.simps)
  have a2: "attempts 2 (run (PROCESS_PENDING # replay_events (getPendingItems (start_worker leftover_queue 3))
        [Resolved created_response, Resolved server_error_response]) (start_worker leftover_queue 3)) = 1"
    using t6 [THEN bspec, OF d(3)] by (simp add: sample_item_def del: step.simps run.simps)
  have r: "requests (trace (run (PROCESS_PENDING # replay_events (getPendingItems (start_worker leftover_queue 3))
        [Resolved created_response, Resolved server_error_response]) (start_worker leftover_queue 3))) =
     [Waited 500, Post (sample_item 0 Failed), Waited 500, Post (sample_item 2 Pending)]"
    using t2 unfolding p
    by (simp add: STAGGER_DELAY_MS_def del: step.simps run.simps replay_events.simps)
  show ?thesis using h d a1 a2 r by blast
qed

end
